theory Spec2Isabelle
  imports Main "HOL-Library.Multiset"
begin

section \<open>Data model of \<open>src/index.ts\<close>\<close>

text \<open>
  The TypeScript interfaces become records. Two interfaces that share a field name
  (\<open>id\<close>, \<open>db\<close>, \<open>key\<close>, \<open>value\<close>, \<open>version\<close>) get a prefix, since record fields are
  constants of the theory and \<open>id\<close> is the identity function of HOL. An optional field
  \<open>f?: T\<close> is a \<open>T option\<close>; \<open>string | number\<close> is the datatype \<open>version\<close>; a JavaScript
  \<open>number\<close> that the code only compares with zero or uses as an index is an \<open>int\<close>.
\<close>

datatype version = VString string | VNumber int

record ArchiveBlockHeader =
  hdr_id :: string
  hdr_db :: string
  hdr_key :: string
  hdr_value :: string
  dataType :: string
  dataSort :: string
  nextBlocks :: "string list"
  numNextBlocks :: int
  numNextItems :: int

record 'x ArchiveBlock =
  header :: ArchiveBlockHeader
  data :: "'x list"
  version :: "version option"

record 'x ArchiveBlockOfType = "'x ArchiveBlock" +
  nextBlocksFirstKey :: "'x list option"
  nextBlocksLastKey :: "'x list option"

record ArchiveTipRecord =
  tip_id :: string
  tip_db :: string
  tip_key :: string
  tip_value :: string
  blockId :: string
  tip_version :: "version option"

record ArchiveGetBlockOptions =
  forUpdate :: "bool option"
  reverse :: "bool option"
  opt_version :: "version option"

record ArchiveGetTipOptions =
  forInsert :: "bool option"
  forCompact :: "bool option"

text \<open>
  The two abstract store classes are records of their operations. A store answers a
  fetch with a block (or tip record) or with \<open>null\<close>, which is \<open>None\<close>. The block id
  handed to \<open>getBlock\<close> is a \<open>string option\<close>: \<open>getNextBlock\<close> reads
  \<open>nextBlocks[height]\<close> without a range check, so at run time the store can be handed
  \<open>undefined\<close>, which is \<open>None\<close>. A store is a function of its arguments: it answers the
  same fetch the same way for the length of one search, and a fetch that is rejected by
  the store is outside this model.
\<close>

record 'x ArchiveBlockDatabase =
  getBlock :: "string option \<Rightarrow> ArchiveGetBlockOptions option \<Rightarrow> 'x ArchiveBlock option"
  getBlockHeader :: "string \<Rightarrow> 'x ArchiveBlock option"

record ArchiveTipDatabase =
  getTip :: "string \<Rightarrow> string \<Rightarrow> string \<Rightarrow> ArchiveGetTipOptions option
               \<Rightarrow> ArchiveTipRecord option"

record 'x ArchiveIndex =
  name :: string
  getter :: "'x \<Rightarrow> string list"
  sorter :: "'x \<Rightarrow> 'x \<Rightarrow> int"
  blockDatabase :: "'x ArchiveBlockDatabase"
  tipDatabase :: ArchiveTipDatabase

record 'x ArchiveIndexBlockOfType = "'x ArchiveBlockOfType" +
  index :: "'x ArchiveIndex"
  indexValue :: string

text \<open>
  \<open>ArchiveDatabaseOptions\<close> also has the callback \<open>dispose\<close>, which no method of the
  class reads or calls; it is left out of the record.
\<close>

record ArchiveDatabaseOptions =
  strictOrdering :: "bool option"

record 'x ArchiveDatabase =
  dbName :: string
  indices :: "'x ArchiveIndex list"
  options :: "ArchiveDatabaseOptions option"

text \<open>
  The two \<open>throw new Error(...)\<close> of the class, as values. The third value marks the one
  place where the class hands \<open>undefined\<close> to the comparator (a first-key cache shorter
  than the pointer list): what happens there is the comparator's business, outside its
  declared type, and the model stops with this value.
\<close>

datatype error =
  UseGetTipBlock  \<comment> \<open>\<open>use getTipBlock() w/o strictOrdering\<close>\<close>
| UnknownIndex string  \<comment> \<open>\<open>unknown index ${indexKey}\<close>\<close>
| ComparatorOnUndefined
    \<comment> \<open>not a throw of the class: the point where it calls the comparator on \<open>undefined\<close>\<close>

text \<open>
  Every call to an external store is recorded, in the order the code makes it, with the
  arguments it passes. A method of the class returns its result together with the list
  of the store calls it made.
\<close>

datatype store_call =
  GetTip string string string "ArchiveGetTipOptions option"
| GetBlock "string option" "ArchiveGetBlockOptions option"

text \<open>
  How a call ends. A method that is not \<open>async\<close> throws or returns a value. Every method
  of the class but \<open>findIndex\<close> is \<open>async\<close>: the call returns a promise, and a throw in
  the body of the method rejects that promise; it does not reach the caller as a throw.
  The bodies of the navigator and of the search have no throw, and these methods are
  modelled by the value their promise is fulfilled with. For the three methods whose
  body has a throw or calls \<open>findIndex\<close>, the promise is part of the model:
  \<open>async\<close> turns the end of the body into the end of the call, and a promise that
  the body returns is adopted, its rejection counting as a throw of the body.
\<close>

datatype 'a completion = Throws error | Returns 'a

datatype 'a promise = Rejected error | Fulfilled 'a

definition async ::
  "'a completion \<times> store_call list \<Rightarrow> 'a promise completion \<times> store_call list" where
  "async body =
     (case body of
        (Throws e, calls) \<Rightarrow> (Returns (Rejected e), calls)
      | (Returns v, calls) \<Rightarrow> (Returns (Fulfilled v), calls))"

definition adopted :: "error + 'a \<Rightarrow> 'a completion" where
  "adopted r = (case r of Inl e \<Rightarrow> Throws e | Inr v \<Rightarrow> Returns v)"

section \<open>JavaScript primitives the class uses\<close>

text \<open>\<open>this.options?.strictOrdering\<close> as a condition: absent options, an absent flag and
  \<open>false\<close> are all falsy.\<close>

definition strictOrdering_on :: "'x ArchiveDatabase \<Rightarrow> bool" where
  "strictOrdering_on this =
     (case options this of
        None \<Rightarrow> False
      | Some opts \<Rightarrow> (case strictOrdering opts of None \<Rightarrow> False | Some b \<Rightarrow> b))"

text \<open>\<open>xs[i]\<close> on a JavaScript array: \<open>undefined\<close> outside the range, also for a
  negative index.\<close>

definition js_index :: "'a list \<Rightarrow> int \<Rightarrow> 'a option" where
  "js_index xs i = (if 0 \<le> i \<and> i < int (length xs) then Some (xs ! nat i) else None)"

text \<open>A string used as a condition: \<open>undefined\<close> and the empty string are falsy.\<close>

definition truthy :: "string option \<Rightarrow> bool" where
  "truthy s = (case s of None \<Rightarrow> False | Some str \<Rightarrow> str \<noteq> [])"

text \<open>
  \<open>Array.prototype.sort(cmp)\<close>: the sort is stable, and for a consistent comparator the
  stable ascending arrangement is unique, so any stable sort computes it. The model is
  insertion sort: an element goes in front of the first element it does not compare
  greater than. The code sorts the fetched array in place; the model returns the sorted
  list, the store's copy of the block being the store's own.
\<close>

fun insert_by :: "('x \<Rightarrow> 'x \<Rightarrow> int) \<Rightarrow> 'x \<Rightarrow> 'x list \<Rightarrow> 'x list" where
  "insert_by cmp x [] = [x]"
| "insert_by cmp x (y # ys) = (if cmp x y \<le> 0 then x # y # ys else y # insert_by cmp x ys)"

definition js_sort :: "('x \<Rightarrow> 'x \<Rightarrow> int) \<Rightarrow> 'x list \<Rightarrow> 'x list" where
  "js_sort cmp xs = foldr (insert_by cmp) xs []"

text \<open>A comparator is consistent when "not greater" is total and transitive and the
  sign of \<open>cmp a b\<close> is the opposite of the sign of \<open>cmp b a\<close>.\<close>

definition consistent :: "('x \<Rightarrow> 'x \<Rightarrow> int) \<Rightarrow> bool" where
  "consistent cmp =
     ((\<forall>a b. (cmp a b < 0) = (0 < cmp b a)) \<and>
      (\<forall>a b c. cmp a b \<le> 0 \<and> cmp b c \<le> 0 \<longrightarrow> cmp a c \<le> 0))"

text \<open>Ascending under the comparator: no element compares greater than a later one.\<close>

definition ascending_by :: "('x \<Rightarrow> 'x \<Rightarrow> int) \<Rightarrow> 'x list \<Rightarrow> bool" where
  "ascending_by cmp xs = sorted_wrt (\<lambda>a b. cmp a b \<le> 0) xs"

section \<open>Chain navigator\<close>

text \<open>
  \<open>getTipBlock\<close>: fetch the tip record with the empty options object \<open>{}\<close>; stop with
  \<open>null\<close> when the record is absent or its \<open>blockId\<close> is falsy; fetch the block with the
  caller's options; stop with \<open>null\<close> when it is absent; sort unless \<open>strictOrdering\<close>;
  return a new object with \<open>data\<close>, \<open>header\<close>, \<open>index\<close> and \<open>indexValue\<close> only.
\<close>

definition no_tip_options :: ArchiveGetTipOptions where
  "no_tip_options = \<lparr>forInsert = None, forCompact = None\<rparr>"

definition indexed :: "'x ArchiveIndex \<Rightarrow> string \<Rightarrow> ArchiveBlockHeader \<Rightarrow> 'x list
                         \<Rightarrow> 'x ArchiveIndexBlockOfType" where
  "indexed ix iv h d =
     \<lparr>header = h, data = d, version = None, nextBlocksFirstKey = None,
      nextBlocksLastKey = None, index = ix, indexValue = iv\<rparr>"

definition getTipBlock ::
  "'x ArchiveDatabase \<Rightarrow> 'x ArchiveIndex \<Rightarrow> string \<Rightarrow> ArchiveGetBlockOptions option
     \<Rightarrow> 'x ArchiveIndexBlockOfType option \<times> store_call list" where
  "getTipBlock this ix iv opts =
     (let tipCall = GetTip (dbName this) (name ix) iv (Some no_tip_options) in
      case getTip (tipDatabase ix) (dbName this) (name ix) iv (Some no_tip_options) of
        None \<Rightarrow> (None, [tipCall])
      | Some tip \<Rightarrow>
          if blockId tip = [] then (None, [tipCall])
          else
            (let blockCall = GetBlock (Some (blockId tip)) opts in
             case getBlock (blockDatabase ix) (Some (blockId tip)) opts of
               None \<Rightarrow> (None, [tipCall, blockCall])
             | Some block \<Rightarrow>
                 (Some (indexed ix iv (header block)
                          (if strictOrdering_on this then data block
                           else js_sort (sorter ix) (data block))),
                  [tipCall, blockCall])))"

text \<open>
  \<open>getNextBlock\<close>: \<open>null\<close> without a fetch when the pointer list is empty (the record
  type makes the list present); otherwise fetch \<open>nextBlocks[height]\<close>, whatever it is,
  with the caller's options. The default \<open>height = 0\<close> is the caller's to write.
\<close>

definition getNextBlock ::
  "'x ArchiveDatabase \<Rightarrow> 'x ArchiveIndexBlockOfType \<Rightarrow> int \<Rightarrow> ArchiveGetBlockOptions option
     \<Rightarrow> 'x ArchiveIndexBlockOfType option \<times> store_call list" where
  "getNextBlock this block height opts =
     (if length (nextBlocks (header block)) < 1 then (None, [])
      else
        (let ptr = js_index (nextBlocks (header block)) height;
             blockCall = GetBlock ptr opts in
         case getBlock (blockDatabase (index block)) ptr opts of
           None \<Rightarrow> (None, [blockCall])
         | Some nextBlock \<Rightarrow>
             (Some (indexed (index block) (indexValue block) (header nextBlock)
                      (if strictOrdering_on this then data nextBlock
                       else js_sort (sorter (index block)) (data nextBlock))),
              [blockCall])))"

section \<open>Index registry\<close>

text \<open>\<open>findIndex\<close>, the one method that is not \<open>async\<close>: the first index of the
  registry with the name, or a throw.\<close>

definition findIndex :: "'x ArchiveDatabase \<Rightarrow> string \<Rightarrow> 'x ArchiveIndex completion" where
  "findIndex this indexKey =
     (case find (\<lambda>x. name x = indexKey) (indices this) of
        None \<Rightarrow> Throws (UnknownIndex indexKey)
      | Some ix \<Rightarrow> Returns ix)"

definition findTipBlock ::
  "'x ArchiveDatabase \<Rightarrow> string \<Rightarrow> string
     \<Rightarrow> 'x ArchiveIndexBlockOfType option promise completion \<times> store_call list" where
  "findTipBlock this indexKey iv =
     async
       (if \<not> strictOrdering_on this then (Throws UseGetTipBlock, [])
        else case findIndex this indexKey of
          Throws e \<Rightarrow> (Throws e, [])
        | Returns ix \<Rightarrow> (case getTipBlock this ix iv None of (r, calls) \<Rightarrow> (Returns r, calls)))"

section \<open>Skip search engine\<close>

text \<open>
  \<open>indexBlockFor\<close> is a \<open>for\<close> loop over the level \<open>i\<close> around a \<open>while\<close> loop. The
  variable \<open>current\<close> is assigned together with \<open>block\<close> at both places and is always
  \<open>block.header\<close>. One step of the model is one evaluation of the \<open>while\<close> condition
  followed by either the exit of the level (the condition is false, or \<open>break\<close>: then
  \<open>i--\<close>, \<open>ascending = false\<close> and the test \<open>i >= 0\<close> of the \<open>for\<close>) or one run of the
  body. A step that goes on is tagged with the branch it took.
\<close>

datatype move = Drop | Rise | Advance

datatype 'x outcome =
  Next move "'x ArchiveIndexBlockOfType" int bool
| Return "error + 'x ArchiveIndexBlockOfType option"

definition reverse_options :: ArchiveGetBlockOptions where
  "reverse_options = \<lparr>forUpdate = None, reverse = Some True, opt_version = None\<rparr>"

text \<open>Leaving the \<open>while\<close> loop at level \<open>i\<close>: the \<open>for\<close> decrements, clears
  \<open>ascending\<close> and tests \<open>i >= 0\<close>; when the test fails the function returns \<open>block\<close>.\<close>

definition exitLevel :: "'x ArchiveIndexBlockOfType \<Rightarrow> int \<Rightarrow> 'x outcome" where
  "exitLevel block i = (if 0 \<le> i - 1 then Next Drop block (i - 1) False else Return (Inr (Some block)))"

text \<open>The \<open>else\<close> branch of the body: adopt the next block, \<open>i = Math.min(i, length - 1)\<close>.\<close>

definition adopt :: "'x ArchiveIndexBlockOfType \<Rightarrow> int \<Rightarrow> bool \<Rightarrow> 'x outcome" where
  "adopt nextBlock i ascending =
     Next Advance nextBlock (min i (int (length (nextBlocks (header nextBlock))) - 1)) ascending"

text \<open>The end of the body, once the comparison has not left the loop: \<open>i++\<close> while
  ascending below the top level of the current block, else
  \<open>block = nextBlock ?? (await this.getNextBlock(block, i, options))\<close>.\<close>

definition proceed ::
  "'x ArchiveDatabase \<Rightarrow> 'x ArchiveIndexBlockOfType \<Rightarrow> int \<Rightarrow> bool
     \<Rightarrow> 'x ArchiveIndexBlockOfType option \<Rightarrow> 'x outcome \<times> store_call list" where
  "proceed this block i ascending nextBlock =
     (if ascending \<and> i < int (length (nextBlocks (header block))) - 1
      then (Next Rise block (i + 1) ascending, [])
      else case nextBlock of
        Some nb \<Rightarrow> (adopt nb i ascending, [])
      | None \<Rightarrow>
          (case getNextBlock this block i (Some reverse_options) of
             (None, calls) \<Rightarrow> (Return (Inr None), calls)
           | (Some nb, calls) \<Rightarrow> (adopt nb i ascending, calls)))"

definition whileStep ::
  "'x ArchiveDatabase \<Rightarrow> 'x \<Rightarrow> 'x ArchiveIndexBlockOfType \<Rightarrow> int \<Rightarrow> bool
     \<Rightarrow> 'x outcome \<times> store_call list" where
  "whileStep this item block i ascending =
     (if \<not> truthy (js_index (nextBlocks (header block)) i) then (exitLevel block i, [])
      else case nextBlocksFirstKey block of
        Some keys \<Rightarrow>
          (case js_index keys i of
             None \<Rightarrow> (Return (Inl ComparatorOnUndefined), [])
           | Some k \<Rightarrow>
               if sorter (index block) k item \<ge> 0 then (exitLevel block i, [])
               else proceed this block i ascending None)
      | None \<Rightarrow>
          (case getNextBlock this block i (Some reverse_options) of
             (nextBlock, calls) \<Rightarrow>
               if (case nextBlock of
                     None \<Rightarrow> True
                   | Some nb \<Rightarrow>
                       (case data nb of
                          [] \<Rightarrow> True
                        | first # _ \<Rightarrow> sorter (index block) first item \<ge> 0))
               then (exitLevel block i, calls)
               else (case proceed this block i ascending nextBlock of
                       (out, calls') \<Rightarrow> (out, calls @ calls'))))"

text \<open>
  The loops can run for ever on a store whose pointers form a cycle, so the iteration
  takes fuel: \<open>None\<close> is "not returned within this many steps".
\<close>

fun descend ::
  "nat \<Rightarrow> 'x ArchiveDatabase \<Rightarrow> 'x \<Rightarrow> 'x ArchiveIndexBlockOfType \<Rightarrow> int \<Rightarrow> bool
     \<Rightarrow> ((error + 'x ArchiveIndexBlockOfType option) \<times> store_call list) option" where
  "descend 0 this item block i ascending = None"
| "descend (Suc n) this item block i ascending =
     (case whileStep this item block i ascending of
        (Return r, calls) \<Rightarrow> Some (r, calls)
      | (Next m block' i' ascending', calls) \<Rightarrow>
          (case descend n this item block' i' ascending' of
             None \<Rightarrow> None
           | Some (r, calls') \<Rightarrow> Some (r, calls @ calls')))"

text \<open>The branches taken by the first \<open>n\<close> steps, for statements about the order of
  advances, rises and drops.\<close>

fun moves ::
  "nat \<Rightarrow> 'x ArchiveDatabase \<Rightarrow> 'x \<Rightarrow> 'x ArchiveIndexBlockOfType \<Rightarrow> int \<Rightarrow> bool \<Rightarrow> move list" where
  "moves 0 this item block i ascending = []"
| "moves (Suc n) this item block i ascending =
     (case fst (whileStep this item block i ascending) of
        Return r \<Rightarrow> []
      | Next m block' i' ascending' \<Rightarrow> m # moves n this item block' i' ascending')"

definition indexBlockFor ::
  "nat \<Rightarrow> 'x ArchiveDatabase \<Rightarrow> 'x ArchiveIndex \<Rightarrow> string \<Rightarrow> 'x
     \<Rightarrow> ((error + 'x ArchiveIndexBlockOfType option) \<times> store_call list) option" where
  "indexBlockFor fuel this ix iv item =
     (case getTipBlock this ix iv (Some reverse_options) of
        (None, calls) \<Rightarrow> Some (Inr None, calls)
      | (Some block, calls) \<Rightarrow>
          (let i = int (length (nextBlocks (header block))) - 1 in
           if 0 \<le> i then
             (case descend fuel this item block i True of
                None \<Rightarrow> None
              | Some (r, calls') \<Rightarrow> Some (r, calls @ calls'))
           else Some (Inr (Some block), calls)))"

text \<open>\<open>findBlockFor\<close> and \<open>findItem\<close> are \<open>async\<close> too; \<open>None\<close> is a promise not
  settled within the fuel.\<close>

definition findBlockFor ::
  "nat \<Rightarrow> 'x ArchiveDatabase \<Rightarrow> string \<Rightarrow> string \<Rightarrow> 'x
     \<Rightarrow> ('x ArchiveIndexBlockOfType option promise completion \<times> store_call list) option" where
  "findBlockFor fuel this indexKey iv item =
     (case findIndex this indexKey of
        Throws e \<Rightarrow> Some (async (Throws e, []))
      | Returns ix \<Rightarrow>
          (case indexBlockFor fuel this ix iv item of
             None \<Rightarrow> None
           | Some (r, calls) \<Rightarrow> Some (async (adopted r, calls))))"

section \<open>Point lookup\<close>

text \<open>
  Modelled from the spec: \<open>sorted.eq\<close> of the package \<open>sorted-array-functions\<close>, which
  is not part of the repository. The spec has it as "an equality search (binary search
  over the block's sorted items using the comparator)" that yields the position of an
  item comparing equal to the queried one, or a negative number.
\<close>

function sorted_indexOf :: "'x list \<Rightarrow> 'x \<Rightarrow> ('x \<Rightarrow> 'x \<Rightarrow> int) \<Rightarrow> int \<Rightarrow> int \<Rightarrow> int" where
  "sorted_indexOf xs v cmp btm tp =
     (if btm \<le> tp \<and> 0 \<le> btm \<and> tp < int (length xs) then
        (let mid = (tp + btm) div 2; c = cmp (xs ! nat mid) v in
         if c = 0 then mid
         else if c \<ge> 0 then sorted_indexOf xs v cmp btm (mid - 1)
         else sorted_indexOf xs v cmp (mid + 1) tp)
      else - 1)"
  by pat_completeness auto
termination
  by (relation "measure (\<lambda>(xs, v, cmp, btm, tp). nat (tp - btm + 1))") auto

declare sorted_indexOf.simps [simp del]

definition sorted_eq :: "'x list \<Rightarrow> 'x \<Rightarrow> ('x \<Rightarrow> 'x \<Rightarrow> int) \<Rightarrow> int" where
  "sorted_eq xs v cmp = sorted_indexOf xs v cmp 0 (int (length xs) - 1)"

definition indexItem ::
  "nat \<Rightarrow> 'x ArchiveDatabase \<Rightarrow> 'x ArchiveIndex \<Rightarrow> string \<Rightarrow> 'x
     \<Rightarrow> ((error + 'x option) \<times> store_call list) option" where
  "indexItem fuel this ix iv item =
     (case indexBlockFor fuel this ix iv item of
        None \<Rightarrow> None
      | Some (Inl e, calls) \<Rightarrow> Some (Inl e, calls)
      | Some (Inr None, calls) \<Rightarrow> Some (Inr None, calls)
      | Some (Inr (Some block), calls) \<Rightarrow>
          (let ind = sorted_eq (data block) item (sorter (index block)) in
           Some (Inr (if ind < 0 then None else js_index (data block) ind), calls)))"

definition findItem ::
  "nat \<Rightarrow> 'x ArchiveDatabase \<Rightarrow> string \<Rightarrow> string \<Rightarrow> 'x
     \<Rightarrow> ('x option promise completion \<times> store_call list) option" where
  "findItem fuel this indexKey iv item =
     (case findIndex this indexKey of
        Throws e \<Rightarrow> Some (async (Throws e, []))
      | Returns ix \<Rightarrow>
          (case indexItem fuel this ix iv item of
             None \<Rightarrow> None
           | Some (r, calls) \<Rightarrow> Some (async (adopted r, calls))))"

section \<open>Example stores\<close>

text \<open>
  Items are integers compared by difference. A block store is a list of blocks looked
  up by header id; the tip store answers for the database \<open>db\<close>, the index \<open>ts\<close> and
  the index value \<open>v\<close> with a tip record that names the given block id (the empty
  string for a tip record without a block).
\<close>

definition ex_sorter :: "int \<Rightarrow> int \<Rightarrow> int" where
  "ex_sorter a b = a - b"

definition ex_block :: "string \<Rightarrow> string list \<Rightarrow> int list \<Rightarrow> int ArchiveBlock" where
  "ex_block bid ptrs items =
     \<lparr>header = \<lparr>hdr_id = bid, hdr_db = ''db'', hdr_key = ''ts'', hdr_value = ''v'',
                 dataType = ''int'', dataSort = ''asc'', nextBlocks = ptrs,
                 numNextBlocks = int (length ptrs), numNextItems = 0\<rparr>,
      data = items, version = None\<rparr>"

definition ex_getBlock ::
  "int ArchiveBlock list \<Rightarrow> string option \<Rightarrow> ArchiveGetBlockOptions option
     \<Rightarrow> int ArchiveBlock option" where
  "ex_getBlock blocks bid opts =
     (case bid of None \<Rightarrow> None | Some s \<Rightarrow> find (\<lambda>b. hdr_id (header b) = s) blocks)"

text \<open>A store kept in a plain JavaScript object, \<open>blocks[id]\<close>: the key \<open>undefined\<close> is
  read as the string \<open>"undefined"\<close>.\<close>

definition ex_getBlock_object ::
  "int ArchiveBlock list \<Rightarrow> string option \<Rightarrow> ArchiveGetBlockOptions option
     \<Rightarrow> int ArchiveBlock option" where
  "ex_getBlock_object blocks bid opts =
     find (\<lambda>b. hdr_id (header b) = (case bid of None \<Rightarrow> ''undefined'' | Some s \<Rightarrow> s)) blocks"

definition ex_getTip ::
  "string \<Rightarrow> string \<Rightarrow> string \<Rightarrow> string \<Rightarrow> ArchiveGetTipOptions option
     \<Rightarrow> ArchiveTipRecord option" where
  "ex_getTip tipBlockId db k v opts =
     (if db = ''db'' \<and> k = ''ts'' \<and> v = ''v''
      then Some \<lparr>tip_id = ''tip'', tip_db = db, tip_key = k, tip_value = v,
                 blockId = tipBlockId, tip_version = None\<rparr>
      else None)"

definition ex_index ::
  "(string option \<Rightarrow> ArchiveGetBlockOptions option \<Rightarrow> int ArchiveBlock option) \<Rightarrow> string
     \<Rightarrow> int ArchiveIndex" where
  "ex_index fetch tipBlockId =
     \<lparr>name = ''ts'', getter = (\<lambda>x. []), sorter = ex_sorter,
      blockDatabase = \<lparr>getBlock = fetch, getBlockHeader = (\<lambda>s. fetch (Some s) None)\<rparr>,
      tipDatabase = \<lparr>getTip = ex_getTip tipBlockId\<rparr>\<rparr>"

definition ex_database ::
  "bool \<Rightarrow> (string option \<Rightarrow> ArchiveGetBlockOptions option \<Rightarrow> int ArchiveBlock option) \<Rightarrow> string
     \<Rightarrow> int ArchiveDatabase" where
  "ex_database strict fetch tipBlockId =
     \<lparr>dbName = ''db'', indices = [ex_index fetch tipBlockId],
      options = (if strict then Some \<lparr>strictOrdering = Some True\<rparr> else None)\<rparr>"

text \<open>One block stored out of order.\<close>

definition ex_unsorted :: "int ArchiveBlock list" where
  "ex_unsorted = [ex_block ''t'' [] [9, 1, 5]]"

text \<open>Two blocks stored out of order, the tip pointing to the other.\<close>

definition ex_unsorted_pair :: "int ArchiveBlock list" where
  "ex_unsorted_pair = [ex_block ''t'' [''u''] [3, 1, 2], ex_block ''u'' [] [9, 1, 5]]"

text \<open>Block options with every hint set.\<close>

definition ex_all_options :: ArchiveGetBlockOptions where
  "ex_all_options = \<lparr>forUpdate = Some True, reverse = Some True, opt_version = Some (VNumber 7)\<rparr>"

text \<open>A block with one pointer, in an object store that holds a block under the key
  \<open>"undefined"\<close>.\<close>

definition ex_object_blocks :: "int ArchiveBlock list" where
  "ex_object_blocks = [ex_block ''t'' [''a''] [1], ex_block ''a'' [] [2], ex_block ''undefined'' [] [3]]"

text \<open>A tip with two pointers, the second to an empty block.\<close>

definition ex_holes :: "int ArchiveBlock list" where
  "ex_holes = [ex_block ''t'' [''o'', ''e''] [1], ex_block ''o'' [] [5], ex_block ''e'' [] []]"

text \<open>
  Two blocks, in both orientations: the tip holding the smaller items, and the chain of
  the spec's second scenario, where the tip \<open>[10, 15]\<close> points to the older block
  \<open>[1, 5, 9]\<close>.
\<close>

definition ex_two :: "int ArchiveBlock list" where
  "ex_two = [ex_block ''t'' [''o''] [1, 5, 9], ex_block ''o'' [] [10, 15]]"

definition ex_two_spec :: "int ArchiveBlock list" where
  "ex_two_spec = [ex_block ''t'' [''o''] [10, 15], ex_block ''o'' [] [1, 5, 9]]"

text \<open>
  Six blocks \<open>b5\<close> (the tip) to \<open>b0\<close> (the oldest), block \<open>n\<close> pointing at level \<open>j\<close> to
  block \<open>n - 2^j\<close> when \<open>2^j\<close> divides \<open>n\<close>: the level counts are 1, 3, 1, 2, 1, 0.
\<close>

definition ex_six :: "int ArchiveBlock list" where
  "ex_six =
     [ex_block ''b5'' [''b4''] [1, 2],
      ex_block ''b4'' [''b3'', ''b2'', ''b0''] [10, 11],
      ex_block ''b3'' [''b2''] [20, 21],
      ex_block ''b2'' [''b1'', ''b0''] [30, 31],
      ex_block ''b1'' [''b0''] [40, 41],
      ex_block ''b0'' [] [50, 51]]"

definition ex_db :: "int ArchiveBlock list \<Rightarrow> string \<Rightarrow> int ArchiveDatabase" where
  "ex_db blocks tipBlockId = ex_database False (ex_getBlock blocks) tipBlockId"

definition ex_ix :: "int ArchiveBlock list \<Rightarrow> string \<Rightarrow> int ArchiveIndex" where
  "ex_ix blocks tipBlockId = ex_index (ex_getBlock blocks) tipBlockId"

text \<open>The block of a store as the navigator returns it for the example index.\<close>

definition ex_indexed :: "int ArchiveBlock list \<Rightarrow> string \<Rightarrow> int ArchiveBlock
                            \<Rightarrow> int ArchiveIndexBlockOfType" where
  "ex_indexed blocks tipBlockId b = indexed (ex_ix blocks tipBlockId) ''v'' (header b) (data b)"

section \<open>Chains\<close>

text \<open>
  The search reads every block with the options \<open>{reverse: true}\<close>, so the chain it walks
  is made of the store's answers to fetches with these options. A chain is the list of
  its blocks from the tip on. It is \<open>linked\<close> when the store answers the id of each block
  with the block and every non-empty pointer of a block leads to a block further down the
  list, or to no block; \<open>chain_tip\<close> ties the list to the tip record, the empty list being
  the chain for which \<open>getTipBlock\<close> has no block.
\<close>

fun linked :: "(string \<Rightarrow> 'x ArchiveBlock option) \<Rightarrow> 'x ArchiveBlock list \<Rightarrow> bool" where
  "linked fetch [] = True"
| "linked fetch (b # bs) =
     (fetch (hdr_id (header b)) = Some b \<and>
      (\<forall>p \<in> set (nextBlocks (header b)).
          p \<noteq> [] \<longrightarrow> (case fetch p of None \<Rightarrow> True | Some b' \<Rightarrow> b' \<in> set bs)) \<and>
      linked fetch bs)"

definition chain_tip ::
  "'x ArchiveDatabase \<Rightarrow> 'x ArchiveIndex \<Rightarrow> string \<Rightarrow> 'x ArchiveBlock list \<Rightarrow> bool" where
  "chain_tip this ix iv bs =
     (case bs of
        [] \<Rightarrow> fst (getTipBlock this ix iv (Some reverse_options)) = None
      | b # _ \<Rightarrow>
          (case getTip (tipDatabase ix) (dbName this) (name ix) iv (Some no_tip_options) of
             None \<Rightarrow> False
           | Some tip \<Rightarrow> blockId tip = hdr_id (header b) \<and> blockId tip \<noteq> []))"

definition chain ::
  "'x ArchiveDatabase \<Rightarrow> 'x ArchiveIndex \<Rightarrow> string \<Rightarrow> 'x ArchiveBlock list \<Rightarrow> bool" where
  "chain this ix iv bs =
     (chain_tip this ix iv bs \<and>
      linked (\<lambda>p. getBlock (blockDatabase ix) (Some p) (Some reverse_options)) bs)"

text \<open>A stored block as the navigator returns it: indexed, and sorted unless
  \<open>strictOrdering\<close>.\<close>

definition as_returned ::
  "'x ArchiveDatabase \<Rightarrow> 'x ArchiveIndex \<Rightarrow> string \<Rightarrow> 'x ArchiveBlock
     \<Rightarrow> 'x ArchiveIndexBlockOfType" where
  "as_returned this ix iv b =
     indexed ix iv (header b)
       (if strictOrdering_on this then data b else js_sort (sorter ix) (data b))"

text \<open>
  What the search needs of a chain beyond its links: the pointer at level 0 of a block
  is the id of the very next block of the chain; every block after the tip has an item;
  no item of a block compares greater than an item of a block further down the chain
  (the tip holds the smallest items).
\<close>

fun level0_linked :: "'x ArchiveBlock list \<Rightarrow> bool" where
  "level0_linked (b # c # bs) =
     (js_index (nextBlocks (header b)) 0 = Some (hdr_id (header c)) \<and> hdr_id (header c) \<noteq> [] \<and>
      level0_linked (c # bs))"
| "level0_linked bs = True"

fun blocks_ordered :: "('x \<Rightarrow> 'x \<Rightarrow> int) \<Rightarrow> 'x ArchiveBlock list \<Rightarrow> bool" where
  "blocks_ordered cmp [] = True"
| "blocks_ordered cmp (b # bs) =
     ((\<forall>x \<in> set (data b). \<forall>c \<in> set bs. \<forall>y \<in> set (data c). cmp x y \<le> 0) \<and>
      blocks_ordered cmp bs)"

definition search_chain ::
  "'x ArchiveDatabase \<Rightarrow> 'x ArchiveIndex \<Rightarrow> string \<Rightarrow> 'x ArchiveBlock list \<Rightarrow> bool" where
  "search_chain this ix iv bs =
     (chain this ix iv bs \<and> level0_linked bs \<and> (\<forall>b \<in> set (tl bs). data b \<noteq> []) \<and>
      blocks_ordered (sorter ix) bs)"

text \<open>
  The order in which the search on a chain comes to an end, on the position of the
  current block in the chain, the level and the flag: an advance moves down the chain; on
  the same block a drop clears the flag or lowers the level, and a raise (only with the
  flag set) closes in on the top level of the block.
\<close>

definition search_order :: "'x ArchiveBlock list \<Rightarrow> ((nat \<times> int \<times> bool) \<times> (nat \<times> int \<times> bool)) set" where
  "search_order bs =
     measures
       [\<lambda>(k, i, asc). length bs - k,
        \<lambda>(k, i, asc). if asc then 1 else 0,
        \<lambda>(k, i, asc). if asc then nat (int (length (nextBlocks (header (bs ! k)))) - i)
                       else nat (i + 1)]"

section \<open>Sorting\<close>

lemma set_insert_by: "set (insert_by cmp x xs) = insert x (set xs)"
  by (induction xs) auto

lemma set_js_sort: "set (js_sort cmp xs) = set xs"
  by (induction xs) (simp_all add: js_sort_def set_insert_by)

lemma mset_insert_by: "mset (insert_by cmp x xs) = add_mset x (mset xs)"
  by (induction xs) auto

lemma mset_js_sort: "mset (js_sort cmp xs) = mset xs"
  by (induction xs) (simp_all add: js_sort_def mset_insert_by)

lemma js_sort_Nil_iff: "(js_sort cmp xs = []) = (xs = [])"
  using set_js_sort [of cmp xs] by (metis set_empty)

lemma ascending_insert_by:
  assumes "consistent cmp" and "ascending_by cmp xs"
  shows "ascending_by cmp (insert_by cmp x xs)"
  using assms(2)
proof (induction xs)
  case Nil
  then show ?case by (simp add: ascending_by_def)
next
  case (Cons y ys)
  have total: "\<not> cmp x y \<le> 0 \<Longrightarrow> cmp y x \<le> 0"
    using assms(1) unfolding consistent_def by (metis linorder_le_cases not_less)
  have trans: "\<And>a b c. cmp a b \<le> 0 \<Longrightarrow> cmp b c \<le> 0 \<Longrightarrow> cmp a c \<le> 0"
    using assms(1) unfolding consistent_def by blast
  from Cons show ?case
    using total trans by (auto simp: ascending_by_def set_insert_by)
qed

lemma ascending_js_sort: "consistent cmp \<Longrightarrow> ascending_by cmp (js_sort cmp xs)"
proof (induction xs)
  case Nil
  then show ?case by (simp add: js_sort_def ascending_by_def)
next
  case (Cons a xs)
  then show ?case
    using ascending_insert_by [of cmp "js_sort cmp xs" a] by (simp add: js_sort_def)
qed

lemma consistent_ex_sorter: "consistent ex_sorter"
  by (simp add: consistent_def ex_sorter_def)

section \<open>Array reads\<close>

lemma truthy_Some: "truthy s \<Longrightarrow> \<exists>p. s = Some p \<and> p \<noteq> []"
  by (cases s) (simp_all add: truthy_def)

lemma js_index_in_set: "js_index xs i = Some p \<Longrightarrow> p \<in> set xs"
  by (auto simp: js_index_def split: if_splits)

section \<open>Chain navigator: results and store calls\<close>

lemma getTipBlock_Some:
  assumes "getTipBlock this ix iv opts = (Some b, calls)"
  obtains tip stored where
    "getTip (tipDatabase ix) (dbName this) (name ix) iv (Some no_tip_options) = Some tip"
    and "blockId tip \<noteq> []"
    and "getBlock (blockDatabase ix) (Some (blockId tip)) opts = Some stored"
    and "calls = [GetTip (dbName this) (name ix) iv (Some no_tip_options),
                  GetBlock (Some (blockId tip)) opts]"
    and "b = indexed ix iv (header stored)
               (if strictOrdering_on this then data stored else js_sort (sorter ix) (data stored))"
  using assms by (auto simp: getTipBlock_def Let_def split: option.splits if_splits)

lemma getNextBlock_Some:
  assumes "getNextBlock this block h opts = (Some nb, calls)"
  obtains stored where
    "getBlock (blockDatabase (index block)) (js_index (nextBlocks (header block)) h) opts = Some stored"
    and "calls = [GetBlock (js_index (nextBlocks (header block)) h) opts]"
    and "nb = indexed (index block) (indexValue block) (header stored)
                (if strictOrdering_on this then data stored
                 else js_sort (sorter (index block)) (data stored))"
  using assms by (auto simp: getNextBlock_def Let_def split: option.splits if_splits)

lemma getTipBlock_fetched:
  assumes "getTip (tipDatabase ix) (dbName this) (name ix) iv (Some no_tip_options) = Some tip"
    and "blockId tip \<noteq> []"
    and "getBlock (blockDatabase ix) (Some (blockId tip)) opts = Some stored"
  shows "getTipBlock this ix iv opts =
           (Some (indexed ix iv (header stored)
                    (if strictOrdering_on this then data stored else js_sort (sorter ix) (data stored))),
            [GetTip (dbName this) (name ix) iv (Some no_tip_options),
             GetBlock (Some (blockId tip)) opts])"
  using assms by (simp add: getTipBlock_def)

lemma getNextBlock_fetched:
  assumes "nextBlocks (header block) \<noteq> []"
    and "getBlock (blockDatabase (index block)) (js_index (nextBlocks (header block)) h) opts
           = Some stored"
  shows "getNextBlock this block h opts =
           (Some (indexed (index block) (indexValue block) (header stored)
                    (if strictOrdering_on this then data stored
                     else js_sort (sorter (index block)) (data stored))),
            [GetBlock (js_index (nextBlocks (header block)) h) opts])"
  using assms by (simp add: getNextBlock_def)

text \<open>
  C10. \<open>getTipBlock\<close> returns the absent result, and its only store call is the tip
  fetch (no block fetch), whenever the tip record is absent or carries an empty block id.
\<close>

theorem getTipBlock_no_tip_no_fetch:
  assumes "getTip (tipDatabase ix) (dbName this) (name ix) iv (Some no_tip_options) = None \<or>
           (\<exists>tip. getTip (tipDatabase ix) (dbName this) (name ix) iv (Some no_tip_options) = Some tip
                  \<and> blockId tip = [])"
  shows "getTipBlock this ix iv opts =
           (None, [GetTip (dbName this) (name ix) iv (Some no_tip_options)])"
  using assms by (auto simp: getTipBlock_def Let_def)

theorem getTipBlock_no_tip_no_fetch_witness:
  "getTipBlock (ex_database False (ex_getBlock ex_unsorted) []) (ex_index (ex_getBlock ex_unsorted) [])
       ''v'' (Some ex_all_options) =
     (None, [GetTip ''db'' ''ts'' ''v'' (Some no_tip_options)]) \<and>
   getTipBlock (ex_database False (ex_getBlock ex_unsorted) ''t'') (ex_index (ex_getBlock ex_unsorted) ''t'')
       ''other'' (Some ex_all_options) =
     (None, [GetTip ''db'' ''ts'' ''other'' (Some no_tip_options)])"
  using
    getTipBlock_no_tip_no_fetch [of "ex_index (ex_getBlock ex_unsorted) []"
      "ex_database False (ex_getBlock ex_unsorted) []" "''v''" "Some ex_all_options"]
    getTipBlock_no_tip_no_fetch [of "ex_index (ex_getBlock ex_unsorted) ''t''"
      "ex_database False (ex_getBlock ex_unsorted) ''t''" "''other''" "Some ex_all_options"]
  by (simp add: ex_database_def ex_index_def ex_getTip_def)

text \<open>
  C6, as the code has it. \<open>getNextBlock\<close> never fails by itself. With an empty pointer
  list it returns the absent result and calls no store. Otherwise it makes exactly one
  fetch, of whatever \<open>nextBlocks[height]\<close> is (\<open>undefined\<close> when the level is out of
  range) with the caller's options, and its result is absent exactly when the store's
  answer to that fetch is.
\<close>

theorem getNextBlock_absent_iff:
  "(fst (getNextBlock this block h opts) = None) =
     (nextBlocks (header block) = [] \<or>
      getBlock (blockDatabase (index block)) (js_index (nextBlocks (header block)) h) opts = None) \<and>
   snd (getNextBlock this block h opts) =
     (if nextBlocks (header block) = [] then []
      else [GetBlock (js_index (nextBlocks (header block)) h) opts])"
  by (auto simp: getNextBlock_def Let_def split: option.splits)

text \<open>
  C6 as stated fails: the block has one pointer, level 1 does not exist, and
  \<open>getNextBlock\<close> hands \<open>undefined\<close> to the store and returns the block the object store
  keeps under that key.
\<close>

theorem getNextBlock_missing_level_counterexample:
  "js_index (nextBlocks (header (ex_block ''t'' [''a''] [1]))) 1 = None \<and>
   getNextBlock (ex_database False (ex_getBlock_object ex_object_blocks) ''t'')
       (indexed (ex_index (ex_getBlock_object ex_object_blocks) ''t'') ''v''
          (header (ex_block ''t'' [''a''] [1])) [1])
       1 None =
     (Some (indexed (ex_index (ex_getBlock_object ex_object_blocks) ''t'') ''v''
              (header (ex_block ''undefined'' [] [3])) [3]),
      [GetBlock None None])"
  by (simp add: getNextBlock_def js_index_def ex_block_def indexed_def ex_index_def
      ex_getBlock_object_def ex_object_blocks_def ex_database_def strictOrdering_on_def js_sort_def)

text \<open>
  C4. For a consistent comparator. Whenever the store answers the fetch of
  \<open>getTipBlock\<close> or of \<open>getNextBlock\<close> with a block, the method returns a block with the
  stored header whose items are, without \<open>strictOrdering\<close>, the stored items rearranged
  in ascending order under the index comparator, whatever order the store holds them
  in, and, with \<open>strictOrdering\<close>, the stored items in the stored order. Every block
  either method returns comes from such a fetch.
\<close>

theorem navigator_ordering:
  assumes "consistent (sorter ix)" and "consistent (sorter (index block))"
  shows
    "(\<forall>tip stored.
        getTip (tipDatabase ix) (dbName this) (name ix) iv (Some no_tip_options) = Some tip \<and>
        blockId tip \<noteq> [] \<and>
        getBlock (blockDatabase ix) (Some (blockId tip)) opts = Some stored \<longrightarrow>
        (\<exists>b. fst (getTipBlock this ix iv opts) = Some b \<and> header b = header stored \<and>
           (if strictOrdering_on this then data b = data stored
            else ascending_by (sorter ix) (data b) \<and> mset (data b) = mset (data stored)))) \<and>
     (\<forall>stored.
        nextBlocks (header block) \<noteq> [] \<and>
        getBlock (blockDatabase (index block)) (js_index (nextBlocks (header block)) h) opts
          = Some stored \<longrightarrow>
        (\<exists>b. fst (getNextBlock this block h opts) = Some b \<and> header b = header stored \<and>
           (if strictOrdering_on this then data b = data stored
            else ascending_by (sorter (index block)) (data b) \<and>
                 mset (data b) = mset (data stored)))) \<and>
     (\<forall>b. fst (getTipBlock this ix iv opts) = Some b \<longrightarrow>
        (\<exists>tip stored.
           getTip (tipDatabase ix) (dbName this) (name ix) iv (Some no_tip_options) = Some tip \<and>
           getBlock (blockDatabase ix) (Some (blockId tip)) opts = Some stored \<and>
           (if strictOrdering_on this then data b = data stored
            else ascending_by (sorter ix) (data b) \<and> mset (data b) = mset (data stored)))) \<and>
     (\<forall>b. fst (getNextBlock this block h opts) = Some b \<longrightarrow>
        (\<exists>stored.
           getBlock (blockDatabase (index block)) (js_index (nextBlocks (header block)) h) opts
             = Some stored \<and>
           (if strictOrdering_on this then data b = data stored
            else ascending_by (sorter (index block)) (data b) \<and>
                 mset (data b) = mset (data stored))))"
proof (intro conjI allI impI)
  fix tip stored
  assume "getTip (tipDatabase ix) (dbName this) (name ix) iv (Some no_tip_options) = Some tip \<and>
        blockId tip \<noteq> [] \<and>
        getBlock (blockDatabase ix) (Some (blockId tip)) opts = Some stored"
  then have "getTipBlock this ix iv opts =
           (Some (indexed ix iv (header stored)
                    (if strictOrdering_on this then data stored else js_sort (sorter ix) (data stored))),
            [GetTip (dbName this) (name ix) iv (Some no_tip_options),
             GetBlock (Some (blockId tip)) opts])"
    using getTipBlock_fetched [of ix this iv tip opts stored] by simp
  then show "\<exists>b. fst (getTipBlock this ix iv opts) = Some b \<and> header b = header stored \<and>
           (if strictOrdering_on this then data b = data stored
            else ascending_by (sorter ix) (data b) \<and> mset (data b) = mset (data stored))"
    using ascending_js_sort [OF assms(1)] by (simp add: indexed_def mset_js_sort)
next
  fix stored
  assume "nextBlocks (header block) \<noteq> [] \<and>
        getBlock (blockDatabase (index block)) (js_index (nextBlocks (header block)) h) opts
          = Some stored"
  then have "getNextBlock this block h opts =
           (Some (indexed (index block) (indexValue block) (header stored)
                    (if strictOrdering_on this then data stored
                     else js_sort (sorter (index block)) (data stored))),
            [GetBlock (js_index (nextBlocks (header block)) h) opts])"
    using getNextBlock_fetched [of block h opts stored this] by simp
  then show "\<exists>b. fst (getNextBlock this block h opts) = Some b \<and> header b = header stored \<and>
           (if strictOrdering_on this then data b = data stored
            else ascending_by (sorter (index block)) (data b) \<and>
                 mset (data b) = mset (data stored))"
    using ascending_js_sort [OF assms(2)] by (simp add: indexed_def mset_js_sort)
next
  fix b
  assume "fst (getTipBlock this ix iv opts) = Some b"
  then have "getTipBlock this ix iv opts = (Some b, snd (getTipBlock this ix iv opts))"
    by (metis prod.collapse)
  then obtain tip stored where
    t: "getTip (tipDatabase ix) (dbName this) (name ix) iv (Some no_tip_options) = Some tip"
    and s: "getBlock (blockDatabase ix) (Some (blockId tip)) opts = Some stored"
    and b: "b = indexed ix iv (header stored)
               (if strictOrdering_on this then data stored else js_sort (sorter ix) (data stored))"
    by (rule getTipBlock_Some)
  from b have "if strictOrdering_on this then data b = data stored
            else ascending_by (sorter ix) (data b) \<and> mset (data b) = mset (data stored)"
    using ascending_js_sort [OF assms(1)] by (simp add: indexed_def mset_js_sort)
  with t s show "\<exists>tip stored.
           getTip (tipDatabase ix) (dbName this) (name ix) iv (Some no_tip_options) = Some tip \<and>
           getBlock (blockDatabase ix) (Some (blockId tip)) opts = Some stored \<and>
           (if strictOrdering_on this then data b = data stored
            else ascending_by (sorter ix) (data b) \<and> mset (data b) = mset (data stored))"
    by blast
next
  fix b
  assume "fst (getNextBlock this block h opts) = Some b"
  then have "getNextBlock this block h opts = (Some b, snd (getNextBlock this block h opts))"
    by (metis prod.collapse)
  then obtain stored where
    s: "getBlock (blockDatabase (index block)) (js_index (nextBlocks (header block)) h) opts
          = Some stored"
    and b: "b = indexed (index block) (indexValue block) (header stored)
                (if strictOrdering_on this then data stored
                 else js_sort (sorter (index block)) (data stored))"
    by (rule getNextBlock_Some)
  from b have "if strictOrdering_on this then data b = data stored
            else ascending_by (sorter (index block)) (data b) \<and>
                 mset (data b) = mset (data stored)"
    using ascending_js_sort [OF assms(2)] by (simp add: indexed_def mset_js_sort)
  with s show "\<exists>stored.
           getBlock (blockDatabase (index block)) (js_index (nextBlocks (header block)) h) opts
             = Some stored \<and>
           (if strictOrdering_on this then data b = data stored
            else ascending_by (sorter (index block)) (data b) \<and>
                 mset (data b) = mset (data stored))"
    by blast
qed

lemma ex_unsorted_pair_fetch:
  "getBlock (blockDatabase (ex_index (ex_getBlock ex_unsorted_pair) ''t'')) (Some ''u'') None =
     Some (ex_block ''u'' [] [9, 1, 5])"
  "getBlock (blockDatabase (ex_index (ex_getBlock ex_unsorted_pair) ''t'')) (Some ''t'') None =
     Some (ex_block ''t'' [''u''] [3, 1, 2])"
  by (simp_all add: ex_index_def ex_getBlock_def ex_unsorted_pair_def ex_block_def)

theorem navigator_ordering_witness:
  "consistent ex_sorter \<and>
   \<not> strictOrdering_on (ex_database False (ex_getBlock ex_unsorted_pair) ''t'') \<and>
   strictOrdering_on (ex_database True (ex_getBlock ex_unsorted_pair) ''t'') \<and>
   ex_getBlock ex_unsorted_pair (Some ''t'') None = Some (ex_block ''t'' [''u''] [3, 1, 2]) \<and>
   ex_getBlock ex_unsorted_pair (Some ''u'') None = Some (ex_block ''u'' [] [9, 1, 5]) \<and>
   map_option data (fst (getTipBlock (ex_database False (ex_getBlock ex_unsorted_pair) ''t'')
       (ex_index (ex_getBlock ex_unsorted_pair) ''t'') ''v'' None)) = Some [1, 2, 3] \<and>
   map_option data (fst (getTipBlock (ex_database True (ex_getBlock ex_unsorted_pair) ''t'')
       (ex_index (ex_getBlock ex_unsorted_pair) ''t'') ''v'' None)) = Some [3, 1, 2] \<and>
   map_option data (fst (getNextBlock (ex_database False (ex_getBlock ex_unsorted_pair) ''t'')
       (indexed (ex_index (ex_getBlock ex_unsorted_pair) ''t'') ''v''
          (header (ex_block ''t'' [''u''] [])) [1, 2, 3]) 0 None)) = Some [1, 5, 9] \<and>
   map_option data (fst (getNextBlock (ex_database True (ex_getBlock ex_unsorted_pair) ''t'')
       (indexed (ex_index (ex_getBlock ex_unsorted_pair) ''t'') ''v''
          (header (ex_block ''t'' [''u''] [])) [3, 1, 2]) 0 None)) = Some [9, 1, 5] \<and>
   ascending_by ex_sorter [1, 2, 3] \<and> mset [1, 2, 3] = mset [3, 1, 2 :: int] \<and>
   ascending_by ex_sorter [1, 5, 9] \<and> mset [1, 5, 9] = mset [9, 1, 5 :: int]"
proof -
  let ?ix = "ex_index (ex_getBlock ex_unsorted_pair) ''t''"
  let ?loose = "ex_database False (ex_getBlock ex_unsorted_pair) ''t''"
  let ?strict = "ex_database True (ex_getBlock ex_unsorted_pair) ''t''"
  let ?hdr = "header (ex_block ''t'' [''u''] [])"
  let ?tipL = "indexed ?ix ''v'' ?hdr [1, 2, 3]"
  let ?tipS = "indexed ?ix ''v'' ?hdr [3, 1, 2]"
  have c: "consistent (sorter ?ix)" "consistent (sorter (index ?tipL))"
    "consistent (sorter (index ?tipS))"
    using consistent_ex_sorter by (simp_all add: ex_index_def indexed_def)
  have flags: "\<not> strictOrdering_on ?loose" "strictOrdering_on ?strict"
    by (simp_all add: ex_database_def strictOrdering_on_def)
  have tipL: "map_option data (fst (getTipBlock ?loose ?ix ''v'' None)) = Some [1, 2, 3]"
    by (simp add: getTipBlock_def ex_database_def ex_index_def ex_getTip_def ex_getBlock_def
        ex_unsorted_pair_def ex_block_def no_tip_options_def strictOrdering_on_def js_sort_def
        indexed_def ex_sorter_def)
  have tipS: "map_option data (fst (getTipBlock ?strict ?ix ''v'' None)) = Some [3, 1, 2]"
    by (simp add: getTipBlock_def ex_database_def ex_index_def ex_getTip_def ex_getBlock_def
        ex_unsorted_pair_def ex_block_def no_tip_options_def strictOrdering_on_def indexed_def)
  have nextL: "map_option data (fst (getNextBlock ?loose ?tipL 0 None)) = Some [1, 5, 9]"
    by (simp add: getNextBlock_def ex_database_def ex_index_def ex_getBlock_def js_index_def
        ex_unsorted_pair_def ex_block_def strictOrdering_on_def js_sort_def indexed_def ex_sorter_def)
  have nextS: "map_option data (fst (getNextBlock ?strict ?tipS 0 None)) = Some [9, 1, 5]"
    by (simp add: getNextBlock_def ex_database_def ex_index_def ex_getBlock_def js_index_def
        ex_unsorted_pair_def ex_block_def strictOrdering_on_def indexed_def)
  have tipRec: "getTip (tipDatabase ?ix) (dbName ?loose) (name ?ix) ''v'' (Some no_tip_options) =
      Some \<lparr>tip_id = ''tip'', tip_db = ''db'', tip_key = ''ts'', tip_value = ''v'',
            blockId = ''t'', tip_version = None\<rparr>"
    by (simp add: ex_index_def ex_database_def ex_getTip_def)
  have ptr: "nextBlocks (header ?tipL) \<noteq> []"
    "js_index (nextBlocks (header ?tipL)) 0 = Some ''u''"
    by (simp_all add: indexed_def ex_block_def js_index_def)
  have fetchU: "getBlock (blockDatabase (index ?tipL)) (js_index (nextBlocks (header ?tipL)) 0) None
      = Some (ex_block ''u'' [] [9, 1, 5])"
    using ptr(2) ex_unsorted_pair_fetch(1) by (simp add: indexed_def)
  from navigator_ordering [OF c(1,2), where this = ?loose and iv = "''v''" and opts = None and h = 0]
  have tipAll: "\<forall>tip stored.
        getTip (tipDatabase ?ix) (dbName ?loose) (name ?ix) ''v'' (Some no_tip_options) = Some tip \<and>
        blockId tip \<noteq> [] \<and>
        getBlock (blockDatabase ?ix) (Some (blockId tip)) None = Some stored \<longrightarrow>
        (\<exists>b. fst (getTipBlock ?loose ?ix ''v'' None) = Some b \<and> header b = header stored \<and>
           (if strictOrdering_on ?loose then data b = data stored
            else ascending_by (sorter ?ix) (data b) \<and> mset (data b) = mset (data stored)))"
    and nextAll: "\<forall>stored.
        nextBlocks (header ?tipL) \<noteq> [] \<and>
        getBlock (blockDatabase (index ?tipL)) (js_index (nextBlocks (header ?tipL)) 0) None
          = Some stored \<longrightarrow>
        (\<exists>b. fst (getNextBlock ?loose ?tipL 0 None) = Some b \<and> header b = header stored \<and>
           (if strictOrdering_on ?loose then data b = data stored
            else ascending_by (sorter (index ?tipL)) (data b) \<and>
                 mset (data b) = mset (data stored)))"
    by blast+
  from tipAll tipRec ex_unsorted_pair_fetch(2) flags(1) obtain bt where
    "fst (getTipBlock ?loose ?ix ''v'' None) = Some bt"
    "ascending_by (sorter ?ix) (data bt)" "mset (data bt) = mset (data (ex_block ''t'' [''u''] [3, 1, 2]))"
    by fastforce
  with tipL have ascT: "ascending_by ex_sorter [1, 2, 3]" "mset [1, 2, 3] = mset [3, 1, 2 :: int]"
    by (simp_all add: ex_index_def ex_block_def)
  from nextAll ptr(1) fetchU flags(1) obtain bn where
    "fst (getNextBlock ?loose ?tipL 0 None) = Some bn"
    "ascending_by (sorter (index ?tipL)) (data bn)"
    "mset (data bn) = mset (data (ex_block ''u'' [] [9, 1, 5]))"
    by fastforce
  with nextL have ascN: "ascending_by ex_sorter [1, 5, 9]" "mset [1, 5, 9] = mset [9, 1, 5 :: int]"
    by (simp_all add: ex_index_def ex_block_def indexed_def)
  have fetches: "ex_getBlock ex_unsorted_pair (Some ''t'') None = Some (ex_block ''t'' [''u''] [3, 1, 2])"
    "ex_getBlock ex_unsorted_pair (Some ''u'') None = Some (ex_block ''u'' [] [9, 1, 5])"
    by (simp_all add: ex_getBlock_def ex_unsorted_pair_def ex_block_def)
  from consistent_ex_sorter flags fetches tipL tipS nextL nextS ascT ascN
  show ?thesis by simp
qed


lemmas ex_defs =
  ex_db_def ex_ix_def ex_indexed_def ex_database_def ex_index_def ex_getTip_def ex_getBlock_def
  ex_block_def ex_sorter_def indexed_def no_tip_options_def reverse_options_def
  strictOrdering_on_def js_sort_def js_index_def truthy_def

lemmas search_defs =
  getTipBlock_def getNextBlock_def whileStep_def proceed_def adopt_def exitLevel_def
  indexBlockFor_def indexItem_def findItem_def findBlockFor_def findIndex_def findTipBlock_def
  async_def adopted_def




text \<open>
  C7, as the code has it. \<open>findItem\<close> and \<open>findBlockFor\<close> with a name that no index of
  the registry has, and \<open>findTipBlock\<close> without \<open>strictOrdering\<close>, end before any store
  is called (the list of store calls is empty), whatever the stores hold and with no step
  of the search taken, and they end with the descriptive error as the rejection of the
  promise the call returns: the three methods are \<open>async\<close>, so the call itself does not
  throw. Only \<open>findIndex\<close> throws the error.
\<close>

theorem configuration_errors_before_store:
  "(indexKey \<notin> set (map name (indices this)) \<longrightarrow>
      findIndex this indexKey = Throws (UnknownIndex indexKey) \<and>
      findItem fuel this indexKey iv item = Some (Returns (Rejected (UnknownIndex indexKey)), []) \<and>
      findBlockFor fuel this indexKey iv item
        = Some (Returns (Rejected (UnknownIndex indexKey)), [])) \<and>
   (\<not> strictOrdering_on this \<longrightarrow>
      findTipBlock this indexKey iv = (Returns (Rejected UseGetTipBlock), []))"
proof -
  have "indexKey \<notin> set (map name (indices this)) \<Longrightarrow>
          find (\<lambda>x. name x = indexKey) (indices this) = None"
    by (auto simp: find_None_iff)
  then show ?thesis
    by (simp add: findItem_def findBlockFor_def findIndex_def findTipBlock_def async_def)
qed

theorem configuration_errors_before_store_witness:
  "''missing'' \<notin> set (map name (indices (ex_db ex_six ''b5''))) \<and>
   \<not> strictOrdering_on (ex_db ex_six ''b5'') \<and>
   findIndex (ex_db ex_six ''b5'') ''missing'' = Throws (UnknownIndex ''missing'') \<and>
   findItem 0 (ex_db ex_six ''b5'') ''missing'' ''v'' 41
     = Some (Returns (Rejected (UnknownIndex ''missing'')), []) \<and>
   findBlockFor 0 (ex_db ex_six ''b5'') ''missing'' ''v'' 41
     = Some (Returns (Rejected (UnknownIndex ''missing'')), []) \<and>
   findTipBlock (ex_db ex_six ''b5'') ''ts'' ''v'' = (Returns (Rejected UseGetTipBlock), [])"
  using configuration_errors_before_store [of "''missing''" "ex_db ex_six ''b5''" 0 "''v''" 41]
    configuration_errors_before_store [of "''ts''" "ex_db ex_six ''b5''" 0 "''v''" 41]
  by (simp add: ex_defs)

text \<open>
  C7 as stated fails on "synchronously": with the unregistered name \<open>nope\<close>, and without
  \<open>strictOrdering\<close>, the call of each of the three methods returns, and what it returns is
  a rejected promise; it does not throw the error. No store is called.
\<close>

theorem rejected_promise_counterexample:
  "findTipBlock (ex_db ex_two ''t'') ''nope'' ''v'' = (Returns (Rejected UseGetTipBlock), []) \<and>
   fst (findTipBlock (ex_db ex_two ''t'') ''nope'' ''v'') \<noteq> Throws UseGetTipBlock \<and>
   findItem 0 (ex_db ex_two ''t'') ''nope'' ''v'' 5
     = Some (Returns (Rejected (UnknownIndex ''nope'')), []) \<and>
   map_option fst (findItem 0 (ex_db ex_two ''t'') ''nope'' ''v'' 5)
     \<noteq> Some (Throws (UnknownIndex ''nope'')) \<and>
   findBlockFor 0 (ex_db ex_two ''t'') ''nope'' ''v'' 5
     = Some (Returns (Rejected (UnknownIndex ''nope'')), []) \<and>
   map_option fst (findBlockFor 0 (ex_db ex_two ''t'') ''nope'' ''v'' 5)
     \<noteq> Some (Throws (UnknownIndex ''nope''))"
  by (simp add: findItem_def findBlockFor_def findIndex_def findTipBlock_def async_def ex_defs)

section \<open>One step of the search\<close>

text \<open>Without a first-key cache a step leaves the level, raises the level or adopts the
  fetched next block; it never returns the absent result or an error.\<close>

lemma whileStep_no_cache:
  assumes "nextBlocksFirstKey block = None"
  shows
    "(\<exists>calls. whileStep this item block i asc = (exitLevel block i, calls) \<and>
        (\<not> truthy (js_index (nextBlocks (header block)) i) \<or>
         getNextBlock this block i (Some reverse_options) = (None, calls) \<or>
         (\<exists>nb. getNextBlock this block i (Some reverse_options) = (Some nb, calls) \<and>
               (data nb = [] \<or> 0 \<le> sorter (index block) (hd (data nb)) item)))) \<or>
     (\<exists>calls nb. whileStep this item block i asc = (Next Rise block (i + 1) asc, calls) \<and>
        asc \<and> i < int (length (nextBlocks (header block))) - 1 \<and>
        truthy (js_index (nextBlocks (header block)) i) \<and>
        getNextBlock this block i (Some reverse_options) = (Some nb, calls) \<and>
        data nb \<noteq> [] \<and> sorter (index block) (hd (data nb)) item < 0) \<or>
     (\<exists>calls nb. whileStep this item block i asc = (adopt nb i asc, calls) \<and>
        \<not> (asc \<and> i < int (length (nextBlocks (header block))) - 1) \<and>
        truthy (js_index (nextBlocks (header block)) i) \<and>
        getNextBlock this block i (Some reverse_options) = (Some nb, calls) \<and>
        data nb \<noteq> [] \<and> sorter (index block) (hd (data nb)) item < 0)"
proof (cases "truthy (js_index (nextBlocks (header block)) i)")
  case False
  then show ?thesis by (simp add: whileStep_def)
next
  case True
  obtain r calls where g: "getNextBlock this block i (Some reverse_options) = (r, calls)"
    by (cases "getNextBlock this block i (Some reverse_options)")
  show ?thesis
  proof (cases r)
    case None
    with True g assms show ?thesis by (simp add: whileStep_def)
  next
    case (Some nb)
    show ?thesis
    proof (cases "data nb")
      case Nil
      with True g assms Some show ?thesis by (simp add: whileStep_def)
    next
      case (Cons first rest)
      show ?thesis
      proof (cases "0 \<le> sorter (index block) first item")
        case ge: True
        with True g assms Some Cons show ?thesis by (simp add: whileStep_def)
      next
        case lt: False
        with True g assms Some Cons show ?thesis
          by (simp add: whileStep_def proceed_def)
      qed
    qed
  qed
qed

text \<open>
  C9. With no first-key cache and a pointer at the level, a fetched next block that is
  absent or has no item ends the level exactly as one whose first item is not smaller
  than the queried item does: the step keeps the current block and drops to the next
  lower level (or, at level 0, returns the current block).
\<close>

theorem absent_or_empty_next_block_ends_level:
  assumes "nextBlocksFirstKey block = None"
    and "truthy (js_index (nextBlocks (header block)) i)"
    and "getNextBlock this block i (Some reverse_options) = (nextBlock, calls)"
    and "nextBlock = None \<or> (\<exists>nb. nextBlock = Some nb \<and> data nb = []) \<or>
         (\<exists>nb. nextBlock = Some nb \<and> data nb \<noteq> [] \<and> 0 \<le> sorter (index block) (hd (data nb)) item)"
  shows "whileStep this item block i ascending =
           (if 0 \<le> i - 1 then Next Drop block (i - 1) False else Return (Inr (Some block)), calls)"
proof -
  have "whileStep this item block i ascending = (exitLevel block i, calls)"
    using assms by (auto simp: whileStep_def split: list.splits)
  then show ?thesis by (simp add: exitLevel_def)
qed

theorem absent_or_empty_next_block_ends_level_witness:
  "whileStep (ex_db ex_holes ''t'') 9 (ex_indexed ex_holes ''t'' (ex_block ''t'' [''o'', ''e''] [1])) 1 True =
     (Next Drop (ex_indexed ex_holes ''t'' (ex_block ''t'' [''o'', ''e''] [1])) 0 False,
      [GetBlock (Some ''e'') (Some reverse_options)])"
proof -
  let ?tip = "ex_indexed ex_holes ''t'' (ex_block ''t'' [''o'', ''e''] [1])"
  let ?e = "ex_indexed ex_holes ''t'' (ex_block ''e'' [] [])"
  have 1: "nextBlocksFirstKey ?tip = None" by (simp add: ex_defs)
  have 2: "truthy (js_index (nextBlocks (header ?tip)) 1)" by (simp add: ex_defs)
  have 3: "getNextBlock (ex_db ex_holes ''t'') ?tip 1 (Some reverse_options) =
             (Some ?e, [GetBlock (Some ''e'') (Some reverse_options)])"
    by (simp add: getNextBlock_def ex_defs ex_holes_def)
  have 4: "Some ?e = None \<or> (\<exists>nb. Some ?e = Some nb \<and> data nb = []) \<or>
         (\<exists>nb. Some ?e = Some nb \<and> data nb \<noteq> [] \<and> 0 \<le> sorter (index ?tip) (hd (data nb)) 9)"
    by (simp add: ex_defs)
  show ?thesis
    using absent_or_empty_next_block_ends_level [OF 1 2 3 4, of True] by simp
qed


section \<open>Runs of the search\<close>

text \<open>More fuel does not change what a descent returns.\<close>

lemma descend_mono:
  "descend n this item block i asc = Some r \<Longrightarrow> descend (n + k) this item block i asc = Some r"
proof (induction n arbitrary: block i asc r)
  case 0
  then show ?case by simp
next
  case (Suc n)
  obtain out calls where w: "whileStep this item block i asc = (out, calls)"
    by (cases "whileStep this item block i asc")
  show ?case
  proof (cases out)
    case (Return res)
    with w Suc.prems show ?thesis by simp
  next
    case (Next m b' i' a')
    with w Suc.prems obtain r' where d: "descend n this item b' i' a' = Some r'"
      by (auto split: option.splits)
    from Suc.IH [OF d] d w Next Suc.prems show ?thesis by simp
  qed
qed








lemma ex_six_tip:
  "getTipBlock (ex_db ex_six ''b5'') (ex_ix ex_six ''b5'') ''v'' (Some reverse_options) =
     (Some (ex_indexed ex_six ''b5'' (ex_block ''b5'' [''b4''] [1, 2])),
      [GetTip ''db'' ''ts'' ''v'' (Some no_tip_options), GetBlock (Some ''b5'') (Some reverse_options)])"
  by (simp add: getTipBlock_def ex_defs ex_six_def)





lemma exit_only_descend:
  assumes "\<And>i asc. \<exists>c. whileStep this item block i asc = (exitLevel block i, c)"
  shows "0 \<le> i \<Longrightarrow> nat i < fuel \<Longrightarrow>
           \<exists>c. descend fuel this item block i asc = Some (Inr (Some block), c)"
proof (induction fuel arbitrary: i asc)
  case 0
  then show ?case by simp
next
  case (Suc fuel)
  from assms obtain c where w: "whileStep this item block i asc = (exitLevel block i, c)"
    by blast
  show ?case
  proof (cases "0 \<le> i - 1")
    case True
    with Suc.prems have "nat (i - 1) < fuel" by linarith
    from Suc.IH [OF True this, of False] obtain c' where
      "descend fuel this item block (i - 1) False = Some (Inr (Some block), c')"
      by blast
    with w True show ?thesis by (simp add: exitLevel_def)
  next
    case False
    with w show ?thesis by (simp add: exitLevel_def)
  qed
qed

lemma exit_only_moves:
  assumes "\<And>i asc. \<exists>c. whileStep this item block i asc = (exitLevel block i, c)"
  shows "set (moves n this item block i asc) \<subseteq> {Drop}"
proof (induction n arbitrary: i asc)
  case 0
  then show ?case by simp
next
  case (Suc n)
  from assms obtain c where w: "whileStep this item block i asc = (exitLevel block i, c)"
    by blast
  show ?case
  proof (cases "0 \<le> i - 1")
    case True
    with w have "moves (Suc n) this item block i asc = Drop # moves n this item block (i - 1) False"
      by (simp add: exitLevel_def)
    with Suc.IH [of "i - 1" False] show ?thesis by simp
  next
    case False
    with w have "moves (Suc n) this item block i asc = []"
      by (simp add: exitLevel_def)
    then show ?thesis by simp
  qed
qed

lemma hd_js_sort_in: "xs \<noteq> [] \<Longrightarrow> hd (js_sort cmp xs) \<in> set xs"
  using set_js_sort [of cmp xs] js_sort_Nil_iff [of cmp xs] hd_in_set [of "js_sort cmp xs"]
  by simp

text \<open>
  C2, as the code has it. When every item of every block that a pointer of the tip
  leads to compares greater than the queried item (as every item of the chain does when
  the queried item is smaller than all of them), the search ends every level of the tip
  without an advance or a raise and \<open>indexBlockFor\<close> returns the tip block, the newest
  block of the chain, once the fuel covers the levels of the tip.
\<close>

theorem smaller_item_returns_tip:
  assumes tip: "getTipBlock this ix iv (Some reverse_options) = (Some tipBlock, calls)"
    and greater: "\<forall>p \<in> set (nextBlocks (header tipBlock)). \<forall>b.
                    getBlock (blockDatabase ix) (Some p) (Some reverse_options) = Some b
                    \<longrightarrow> (\<forall>x \<in> set (data b). 0 < sorter ix x item)"
  shows "(\<forall>fuel \<ge> length (nextBlocks (header tipBlock)).
            \<exists>calls'. indexBlockFor fuel this ix iv item = Some (Inr (Some tipBlock), calls')) \<and>
         (\<forall>n. set (moves n this item tipBlock (int (length (nextBlocks (header tipBlock))) - 1) True)
                \<subseteq> {Drop})"
proof -
  from tip obtain tipRec :: ArchiveTipRecord and stored where
    "getBlock (blockDatabase ix) (Some (blockId tipRec)) (Some reverse_options) = Some stored"
    and tb: "tipBlock = indexed ix iv (header stored)
           (if strictOrdering_on this then data stored else js_sort (sorter ix) (data stored))"
    by (rule getTipBlock_Some) blast
  then have nc: "nextBlocksFirstKey tipBlock = None" and ixb: "index tipBlock = ix"
    by (simp_all add: indexed_def)
  have exit: "\<exists>c. whileStep this item tipBlock i asc = (exitLevel tipBlock i, c)" for i asc
  proof -
    have no: False
      if t: "truthy (js_index (nextBlocks (header tipBlock)) i)"
        and g: "getNextBlock this tipBlock i (Some reverse_options) = (Some nb, c)"
        and ne: "data nb \<noteq> []" and lt: "sorter (index tipBlock) (hd (data nb)) item < 0"
      for nb c
    proof -
      from t obtain p where p: "js_index (nextBlocks (header tipBlock)) i = Some p"
        using truthy_Some by blast
      then have pin: "p \<in> set (nextBlocks (header tipBlock))" by (rule js_index_in_set)
      from g obtain st where
        st: "getBlock (blockDatabase (index tipBlock)) (js_index (nextBlocks (header tipBlock)) i)
               (Some reverse_options) = Some st"
        and nb: "nb = indexed (index tipBlock) (indexValue tipBlock) (header st)
                  (if strictOrdering_on this then data st
                   else js_sort (sorter (index tipBlock)) (data st))"
        by (rule getNextBlock_Some) blast
      from nb ne have "data st \<noteq> []"
        by (auto simp: indexed_def js_sort_Nil_iff split: if_splits)
      with nb have "hd (data nb) \<in> set (data st)"
        by (auto simp: indexed_def hd_js_sort_in)
      with greater st ixb p pin
      have "0 < sorter ix (hd (data nb)) item" by auto
      with lt ixb show False by simp
    qed
    from whileStep_no_cache [OF nc, of this item i asc] no show ?thesis
      by blast
  qed
  have ret: "\<exists>calls'. indexBlockFor fuel this ix iv item = Some (Inr (Some tipBlock), calls')"
    if "length (nextBlocks (header tipBlock)) \<le> fuel" for fuel
  proof (cases "0 \<le> int (length (nextBlocks (header tipBlock))) - 1")
    case True
    with that have "nat (int (length (nextBlocks (header tipBlock))) - 1) < fuel" by linarith
    from exit_only_descend [of this item tipBlock, OF exit True this, of True] obtain c where
      "descend fuel this item tipBlock (int (length (nextBlocks (header tipBlock))) - 1) True
         = Some (Inr (Some tipBlock), c)"
      by blast
    with tip True show ?thesis by (simp add: indexBlockFor_def)
  next
    case False
    with tip show ?thesis by (simp add: indexBlockFor_def)
  qed
  from ret exit_only_moves [of this item tipBlock, OF exit] show ?thesis by blast
qed

lemma ex_getBlock_in: "ex_getBlock blocks bid opts = Some b \<Longrightarrow> b \<in> set blocks"
  by (auto simp: ex_getBlock_def find_Some_iff split: option.splits)

lemma ex_two_tip:
  "getTipBlock (ex_db ex_two ''t'') (ex_ix ex_two ''t'') ''v'' (Some reverse_options) =
     (Some (ex_indexed ex_two ''t'' (ex_block ''t'' [''o''] [1, 5, 9])),
      [GetTip ''db'' ''ts'' ''v'' (Some no_tip_options), GetBlock (Some ''t'') (Some reverse_options)])"
  by (simp add: getTipBlock_def ex_defs ex_two_def)

theorem smaller_item_returns_tip_witness:
  "\<exists>calls. indexBlockFor 1 (ex_db ex_two ''t'') (ex_ix ex_two ''t'') ''v'' 0 =
     Some (Inr (Some (ex_indexed ex_two ''t'' (ex_block ''t'' [''o''] [1, 5, 9]))), calls)"
proof -
  have greater: "\<forall>p \<in> set (nextBlocks (header (ex_indexed ex_two ''t'' (ex_block ''t'' [''o''] [1, 5, 9])))).
      \<forall>b. getBlock (blockDatabase (ex_ix ex_two ''t'')) (Some p) (Some reverse_options) = Some b
          \<longrightarrow> (\<forall>x \<in> set (data b). 0 < sorter (ex_ix ex_two ''t'') x 0)"
    by (simp add: ex_defs ex_two_def)
  have "length (nextBlocks (header (ex_indexed ex_two ''t'' (ex_block ''t'' [''o''] [1, 5, 9])))) \<le> 1"
    by (simp add: ex_defs)
  with smaller_item_returns_tip [OF ex_two_tip greater] show ?thesis
    by blast
qed

text \<open>
  C2 as stated fails on both two-block chains with the queried item 0, smaller than
  every stored item: the search returns the tip \<open>t\<close>, while the oldest block, the one
  without a pointer, is \<open>o\<close>.
\<close>

theorem smaller_item_oldest_block_counterexample:
  "map_option fst (indexBlockFor 1 (ex_db ex_two ''t'') (ex_ix ex_two ''t'') ''v'' 0) =
     Some (Inr (Some (ex_indexed ex_two ''t'' (ex_block ''t'' [''o''] [1, 5, 9])))) \<and>
   map_option fst (indexBlockFor 1 (ex_db ex_two_spec ''t'') (ex_ix ex_two_spec ''t'') ''v'' 0) =
     Some (Inr (Some (ex_indexed ex_two_spec ''t'' (ex_block ''t'' [''o''] [10, 15])))) \<and>
   ex_getBlock ex_two (Some ''o'') (Some reverse_options) = Some (ex_block ''o'' [] [10, 15]) \<and>
   ex_getBlock ex_two_spec (Some ''o'') (Some reverse_options) = Some (ex_block ''o'' [] [1, 5, 9]) \<and>
   nextBlocks (header (ex_block ''o'' [] [10, 15])) = [] \<and>
   ex_block ''o'' [] [10, 15] \<noteq> ex_block ''t'' [''o''] [1, 5, 9]"
  by (simp add: eval_nat_numeral search_defs ex_defs ex_two_def ex_two_spec_def)


section \<open>The search on a linked chain\<close>

lemma as_returned_simps [simp]:
  "header (as_returned this ix iv b) = header b"
  "index (as_returned this ix iv b) = ix"
  "indexValue (as_returned this ix iv b) = iv"
  "nextBlocksFirstKey (as_returned this ix iv b) = None"
  "set (data (as_returned this ix iv b)) = set (data b)"
  "(data (as_returned this ix iv b) = []) = (data b = [])"
  by (simp_all add: as_returned_def indexed_def set_js_sort js_sort_Nil_iff)

lemma linked_nth:
  assumes "linked F bs" and "k < length bs"
  shows "F (hdr_id (header (bs ! k))) = Some (bs ! k) \<and>
         (\<forall>p b'. p \<in> set (nextBlocks (header (bs ! k))) \<and> p \<noteq> [] \<and> F p = Some b'
             \<longrightarrow> (\<exists>j. k < j \<and> j < length bs \<and> b' = bs ! j))"
  using assms
proof (induction bs arbitrary: k)
  case Nil
  then show ?case by simp
next
  case (Cons b bs)
  show ?case
  proof (cases k)
    case 0
    have "\<exists>j. 0 < j \<and> j < length (b # bs) \<and> b' = (b # bs) ! j"
      if "p \<in> set (nextBlocks (header b))" "p \<noteq> []" "F p = Some b'" for p b'
    proof -
      from Cons.prems(1) that have "b' \<in> set bs" by auto
      then obtain n where "n < length bs" "bs ! n = b'" by (auto simp: in_set_conv_nth)
      then have "0 < Suc n \<and> Suc n < length (b # bs) \<and> b' = (b # bs) ! Suc n" by simp
      then show ?thesis by blast
    qed
    with Cons.prems(1) 0 show ?thesis by auto
  next
    case (Suc k')
    with Cons.prems have "linked F bs" "k' < length bs" by simp_all
    from Cons.IH [OF this] have
      self: "F (hdr_id (header (bs ! k'))) = Some (bs ! k')"
      and ptrs: "\<And>p b'. p \<in> set (nextBlocks (header (bs ! k'))) \<Longrightarrow> p \<noteq> [] \<Longrightarrow> F p = Some b'
                  \<Longrightarrow> \<exists>j. k' < j \<and> j < length bs \<and> b' = bs ! j"
      by blast+
    have "\<exists>j. k < j \<and> j < length (b # bs) \<and> b' = (b # bs) ! j"
      if "p \<in> set (nextBlocks (header ((b # bs) ! k)))" "p \<noteq> []" "F p = Some b'" for p b'
    proof -
      from that Suc ptrs [of p b'] obtain j where "k' < j" "j < length bs" "b' = bs ! j"
        by auto
      with Suc have "k < Suc j \<and> Suc j < length (b # bs) \<and> b' = (b # bs) ! Suc j" by simp
      then show ?thesis by blast
    qed
    with self Suc show ?thesis by auto
  qed
qed

text \<open>One step from a block as the navigator returns it, with what the step has seen
  of the store.\<close>

lemma step_as_returned:
  fixes b :: "'x ArchiveBlock"
  defines "ptr \<equiv> \<lambda>i. js_index (nextBlocks (header b)) i"
  shows
    "(\<exists>c. whileStep this item (as_returned this ix iv b) i asc
            = (exitLevel (as_returned this ix iv b) i, c) \<and>
          (\<not> truthy (ptr i) \<or>
           (\<exists>p. ptr i = Some p \<and> p \<noteq> [] \<and>
              (getBlock (blockDatabase ix) (Some p) (Some reverse_options) = None \<or>
               (\<exists>st. getBlock (blockDatabase ix) (Some p) (Some reverse_options) = Some st \<and>
                  (data st = [] \<or>
                   0 \<le> sorter ix (hd (data (as_returned this ix iv st))) item)))))) \<or>
     (\<exists>c. whileStep this item (as_returned this ix iv b) i asc
            = (Next Rise (as_returned this ix iv b) (i + 1) asc, c) \<and>
          asc \<and> i < int (length (nextBlocks (header b))) - 1) \<or>
     (\<exists>c p st. whileStep this item (as_returned this ix iv b) i asc
            = (adopt (as_returned this ix iv st) i asc, c) \<and>
          ptr i = Some p \<and> p \<noteq> [] \<and>
          getBlock (blockDatabase ix) (Some p) (Some reverse_options) = Some st \<and>
          data st \<noteq> [] \<and> sorter ix (hd (data (as_returned this ix iv st))) item < 0)"
proof -
  let ?B = "as_returned this ix iv b"
  have nb_eq: "\<exists>p st. ptr i = Some p \<and> p \<noteq> [] \<and>
         getBlock (blockDatabase ix) (Some p) (Some reverse_options) = Some st \<and>
         nb = as_returned this ix iv st"
    if t: "truthy (js_index (nextBlocks (header ?B)) i)"
      and g: "getNextBlock this ?B i (Some reverse_options) = (Some nb, c)" for nb c
  proof -
    from t obtain p where p: "ptr i = Some p" "p \<noteq> []"
      using truthy_Some [of "ptr i"] by (auto simp: ptr_def)
    from g obtain st where
      "getBlock (blockDatabase (index ?B)) (js_index (nextBlocks (header ?B)) i)
         (Some reverse_options) = Some st"
      and "nb = indexed (index ?B) (indexValue ?B) (header st)
                 (if strictOrdering_on this then data st else js_sort (sorter (index ?B)) (data st))"
      by (rule getNextBlock_Some)
    with p show ?thesis by (auto simp: ptr_def as_returned_def indexed_def)
  qed
  have none: "\<exists>p. ptr i = Some p \<and> p \<noteq> [] \<and>
         getBlock (blockDatabase ix) (Some p) (Some reverse_options) = None"
    if t: "truthy (js_index (nextBlocks (header ?B)) i)"
      and g: "getNextBlock this ?B i (Some reverse_options) = (None, c)" for c
  proof -
    from t obtain p where p: "ptr i = Some p" "p \<noteq> []"
      using truthy_Some [of "ptr i"] by (auto simp: ptr_def)
    then have "nextBlocks (header b) \<noteq> []"
      by (auto simp: ptr_def js_index_def split: if_splits)
    with g p show ?thesis
      by (auto simp: getNextBlock_def Let_def ptr_def split: option.splits if_splits)
  qed
  have nc: "nextBlocksFirstKey ?B = None" by simp
  from whileStep_no_cache [OF nc, of this item i asc]
  consider
    (exit) c where "whileStep this item ?B i asc = (exitLevel ?B i, c)"
      "\<not> truthy (js_index (nextBlocks (header ?B)) i) \<or>
       getNextBlock this ?B i (Some reverse_options) = (None, c) \<or>
       (\<exists>nb. getNextBlock this ?B i (Some reverse_options) = (Some nb, c) \<and>
             (data nb = [] \<or> 0 \<le> sorter (index ?B) (hd (data nb)) item))"
  | (rise) c where "whileStep this item ?B i asc = (Next Rise ?B (i + 1) asc, c)"
      "asc" "i < int (length (nextBlocks (header ?B))) - 1"
  | (adv) c nb where "whileStep this item ?B i asc = (adopt nb i asc, c)"
      "truthy (js_index (nextBlocks (header ?B)) i)"
      "getNextBlock this ?B i (Some reverse_options) = (Some nb, c)"
      "data nb \<noteq> []" "sorter (index ?B) (hd (data nb)) item < 0"
    by blast
  then show ?thesis
  proof cases
    case exit
    show ?thesis
    proof (cases "truthy (js_index (nextBlocks (header ?B)) i)")
      case False
      with exit(1) show ?thesis by (auto simp: ptr_def)
    next
      case True
      from exit(2) True consider
        "getNextBlock this ?B i (Some reverse_options) = (None, c)"
        | nb where "getNextBlock this ?B i (Some reverse_options) = (Some nb, c)"
          "data nb = [] \<or> 0 \<le> sorter (index ?B) (hd (data nb)) item"
        by blast
      then show ?thesis
      proof cases
        case 1
        from none [OF True 1] exit(1) show ?thesis by blast
      next
        case 2
        from nb_eq [OF True 2(1)] obtain p st where
          "ptr i = Some p" "p \<noteq> []"
          "getBlock (blockDatabase ix) (Some p) (Some reverse_options) = Some st"
          "nb = as_returned this ix iv st"
          by blast
        with 2(2) exit(1) show ?thesis by auto
      qed
    qed
  next
    case rise
    then show ?thesis by auto
  next
    case adv
    from nb_eq [OF adv(2,3)] obtain p st where
      "ptr i = Some p" "p \<noteq> []"
      "getBlock (blockDatabase ix) (Some p) (Some reverse_options) = Some st"
      "nb = as_returned this ix iv st"
      by blast
    with adv(1,4,5) show ?thesis by auto
  qed
qed

lemma descend_Return:
  "whileStep this item block i asc = (Return r, c) \<Longrightarrow> 1 \<le> fuel \<Longrightarrow>
     descend fuel this item block i asc = Some (r, c)"
  by (cases fuel) simp_all

lemma descend_Next:
  assumes "whileStep this item block i asc = (Next m b' i' a', c)"
    and "\<forall>fuel\<ge>N. \<exists>r calls. descend fuel this item b' i' a' = Some (r, calls) \<and> P r"
    and "\<And>r. P r \<Longrightarrow> Q r"
  shows "\<forall>fuel\<ge>Suc N. \<exists>r calls. descend fuel this item block i asc = Some (r, calls) \<and> Q r"
proof (intro allI impI)
  fix fuel
  assume "Suc N \<le> fuel"
  then obtain f where f: "fuel = Suc f" "N \<le> f" by (cases fuel) auto
  with assms(2) obtain r calls where "descend f this item b' i' a' = Some (r, calls)" "P r"
    by blast
  with assms(1,3) f(1)
  show "\<exists>r calls. descend fuel this item block i asc = Some (r, calls) \<and> Q r"
    by simp
qed

text \<open>On a linked chain the descent returns, and it returns a block of the chain at or
  after the one it starts from.\<close>

lemma descend_in_chain:
  fixes bs :: "'x ArchiveBlock list"
  assumes lk: "linked (\<lambda>p. getBlock (blockDatabase ix) (Some p) (Some reverse_options)) bs"
  shows "k < length bs \<Longrightarrow>
     \<exists>N. \<forall>fuel\<ge>N. \<exists>r calls.
        descend fuel this item (as_returned this ix iv (bs ! k)) i asc = Some (r, calls) \<and>
        (\<exists>j. k \<le> j \<and> j < length bs \<and> r = Inr (Some (as_returned this ix iv (bs ! j))))"
  using wf_measures [of
      "[\<lambda>(k, i, asc). length bs - k,
        \<lambda>(k, i, asc). if asc then 1 else 0,
        \<lambda>(k, i, asc). if asc then nat (int (length (nextBlocks (header (bs ! k)))) - i)
                       else nat (i + 1)]", folded search_order_def]
proof (induct "(k, i, asc)" arbitrary: k i asc rule: wf_induct_rule)
  case less
  let ?R = "as_returned this ix iv"
  let ?P = "\<lambda>k r. \<exists>j. k \<le> j \<and> j < length bs \<and> r = Inr (Some (?R (bs ! j)))"
  from step_as_returned [of this item ix iv "bs ! k" i asc]
  consider
    (exit) c where "whileStep this item (?R (bs ! k)) i asc = (exitLevel (?R (bs ! k)) i, c)"
  | (rise) c where "whileStep this item (?R (bs ! k)) i asc = (Next Rise (?R (bs ! k)) (i + 1) asc, c)"
      "asc" "i < int (length (nextBlocks (header (bs ! k)))) - 1"
  | (adv) c p st where "whileStep this item (?R (bs ! k)) i asc = (adopt (?R st) i asc, c)"
      "js_index (nextBlocks (header (bs ! k))) i = Some p" "p \<noteq> []"
      "getBlock (blockDatabase ix) (Some p) (Some reverse_options) = Some st"
    by blast
  then show ?case
  proof cases
    case exit
    show ?thesis
    proof (cases "0 \<le> i - 1")
      case True
      with exit have w: "whileStep this item (?R (bs ! k)) i asc = (Next Drop (?R (bs ! k)) (i - 1) False, c)"
        by (simp add: exitLevel_def)
      from True have "((k, i - 1, False), (k, i, asc)) \<in> search_order bs"
        by (auto simp: search_order_def)
      from less.hyps [OF this less.prems] obtain N where
        "\<forall>fuel\<ge>N. \<exists>r calls. descend fuel this item (?R (bs ! k)) (i - 1) False = Some (r, calls)
            \<and> ?P k r"
        by blast
      from descend_Next [OF w this] show ?thesis by (rule exI)
    next
      case False
      with exit have w: "whileStep this item (?R (bs ! k)) i asc = (Return (Inr (Some (?R (bs ! k)))), c)"
        by (simp add: exitLevel_def)
      have "?P k (Inr (Some (?R (bs ! k))))"
        using less.prems by blast
      with descend_Return [OF w]
      have "\<forall>fuel\<ge>1. \<exists>r calls. descend fuel this item (?R (bs ! k)) i asc = Some (r, calls) \<and> ?P k r"
        by simp
      then show ?thesis by (rule exI)
    qed
  next
    case rise
    from rise(2,3) have "((k, i + 1, asc), (k, i, asc)) \<in> search_order bs"
      by (auto simp: search_order_def)
    from less.hyps [OF this less.prems] obtain N where
      "\<forall>fuel\<ge>N. \<exists>r calls. descend fuel this item (?R (bs ! k)) (i + 1) asc = Some (r, calls)
          \<and> ?P k r"
      by blast
    from descend_Next [OF rise(1) this] show ?thesis by (rule exI)
  next
    case adv
    from adv(2) have "p \<in> set (nextBlocks (header (bs ! k)))" by (rule js_index_in_set)
    with linked_nth [OF lk less.prems] adv(3,4) obtain j where
      j: "k < j" "j < length bs" "st = bs ! j"
      by blast
    let ?i' = "min i (int (length (nextBlocks (header (?R (bs ! j))))) - 1)"
    from adv(1) j have w: "whileStep this item (?R (bs ! k)) i asc = (Next Advance (?R (bs ! j)) ?i' asc, c)"
      by (simp add: adopt_def)
    from j less.prems have "((j, ?i', asc), (k, i, asc)) \<in> search_order bs"
      by (auto simp: search_order_def)
    from less.hyps [OF this j(2)] obtain N where
      n: "\<forall>fuel\<ge>N. \<exists>r calls. descend fuel this item (?R (bs ! j)) ?i' asc = Some (r, calls)
          \<and> ?P j r"
      by blast
    have "?P k r" if "?P j r" for r :: "error + 'x ArchiveIndexBlockOfType option"
    proof -
      from that obtain j' where "j \<le> j'" "j' < length bs" "r = Inr (Some (?R (bs ! j')))"
        by blast
      with j(1) have "k \<le> j' \<and> j' < length bs \<and> r = Inr (Some (?R (bs ! j')))" by simp
      then show ?thesis by blast
    qed
    from descend_Next [OF w n this] show ?thesis by (rule exI)
  qed
qed


lemma getTipBlock_chain:
  assumes "chain this ix iv (b # bs)"
  shows "getTipBlock this ix iv (Some reverse_options) =
           (Some (as_returned this ix iv b),
            [GetTip (dbName this) (name ix) iv (Some no_tip_options),
             GetBlock (Some (hdr_id (header b))) (Some reverse_options)])"
proof -
  from assms obtain tip where
    "getTip (tipDatabase ix) (dbName this) (name ix) iv (Some no_tip_options) = Some tip"
    "blockId tip = hdr_id (header b)" "blockId tip \<noteq> []"
    by (auto simp: chain_def chain_tip_def split: option.splits)
  moreover from assms
  have "getBlock (blockDatabase ix) (Some (hdr_id (header b))) (Some reverse_options) = Some b"
    by (simp add: chain_def)
  ultimately show ?thesis
    by (simp add: getTipBlock_def as_returned_def)
qed

text \<open>On a non-empty chain \<open>indexBlockFor\<close> returns, and it returns a block of the chain.\<close>

lemma indexBlockFor_chain:
  assumes ch: "chain this ix iv bs" and ne: "bs \<noteq> []"
  shows "\<exists>N. \<forall>fuel\<ge>N. \<exists>j calls. j < length bs \<and>
           indexBlockFor fuel this ix iv item
             = Some (Inr (Some (as_returned this ix iv (bs ! j))), calls)"
proof -
  from ne obtain b rest where bs: "bs = b # rest" by (cases bs) auto
  from ch bs have tip: "getTipBlock this ix iv (Some reverse_options) =
      (Some (as_returned this ix iv (bs ! 0)),
       [GetTip (dbName this) (name ix) iv (Some no_tip_options),
        GetBlock (Some (hdr_id (header b))) (Some reverse_options)])"
    using getTipBlock_chain [of this ix iv b rest] by simp
  let ?top = "int (length (nextBlocks (header (bs ! 0)))) - 1"
  show ?thesis
  proof (cases "0 \<le> ?top")
    case False
    with tip have "indexBlockFor fuel this ix iv item =
        Some (Inr (Some (as_returned this ix iv (bs ! 0))),
              [GetTip (dbName this) (name ix) iv (Some no_tip_options),
               GetBlock (Some (hdr_id (header b))) (Some reverse_options)])" for fuel
      by (simp add: indexBlockFor_def)
    with ne have "\<forall>fuel\<ge>0. \<exists>j calls. j < length bs \<and>
           indexBlockFor fuel this ix iv item
             = Some (Inr (Some (as_returned this ix iv (bs ! j))), calls)"
      by blast
    then show ?thesis by (rule exI)
  next
    case True
    from ch have lk: "linked (\<lambda>p. getBlock (blockDatabase ix) (Some p) (Some reverse_options)) bs"
      by (simp add: chain_def)
    from ne have "0 < length bs" by simp
    from descend_in_chain [OF lk this, of this item iv ?top True] obtain N where
      n: "\<forall>fuel\<ge>N. \<exists>r calls.
        descend fuel this item (as_returned this ix iv (bs ! 0)) ?top True = Some (r, calls) \<and>
        (\<exists>j. 0 \<le> j \<and> j < length bs \<and> r = Inr (Some (as_returned this ix iv (bs ! j))))"
      by blast
    have "\<exists>j calls. j < length bs \<and>
           indexBlockFor fuel this ix iv item
             = Some (Inr (Some (as_returned this ix iv (bs ! j))), calls)"
      if "N \<le> fuel" for fuel
    proof -
      from n that obtain r calls j where
        "descend fuel this item (as_returned this ix iv (bs ! 0)) ?top True = Some (r, calls)"
        "j < length bs" "r = Inr (Some (as_returned this ix iv (bs ! j)))"
        by blast
      with tip True have "j < length bs \<and> indexBlockFor fuel this ix iv item =
          Some (Inr (Some (as_returned this ix iv (bs ! j))),
                [GetTip (dbName this) (name ix) iv (Some no_tip_options),
                 GetBlock (Some (hdr_id (header b))) (Some reverse_options)] @ calls)"
        by (simp add: indexBlockFor_def)
      then show ?thesis by blast
    qed
    then have "\<forall>fuel\<ge>N. \<exists>j calls. j < length bs \<and>
           indexBlockFor fuel this ix iv item
             = Some (Inr (Some (as_returned this ix iv (bs ! j))), calls)"
      by blast
    then show ?thesis by (rule exI)
  qed
qed

section \<open>Point lookup\<close>

lemma sorted_indexOf_found:
  "0 \<le> sorted_indexOf xs v cmp btm tp \<Longrightarrow>
     sorted_indexOf xs v cmp btm tp < int (length xs) \<and>
     cmp (xs ! nat (sorted_indexOf xs v cmp btm tp)) v = 0"
proof (induction xs v cmp btm tp rule: sorted_indexOf.induct)
  case (1 xs v cmp btm tp)
  show ?case
  proof (cases "btm \<le> tp \<and> 0 \<le> btm \<and> tp < int (length xs)")
    case False
    with "1.prems" show ?thesis by (subst (asm) sorted_indexOf.simps) simp
  next
    case range: True
    let ?mid = "(tp + btm) div 2"
    let ?c = "cmp (xs ! nat ?mid) v"
    from range have mid: "?mid < int (length xs)" by linarith
    show ?thesis
    proof (cases "?c = 0")
      case True
      with range have "sorted_indexOf xs v cmp btm tp = ?mid"
        by (subst sorted_indexOf.simps) (simp add: Let_def)
      with True mid show ?thesis by simp
    next
      case ne: False
      show ?thesis
      proof (cases "0 \<le> ?c")
        case True
        with range ne have eq: "sorted_indexOf xs v cmp btm tp = sorted_indexOf xs v cmp btm (?mid - 1)"
          by (subst sorted_indexOf.simps) (simp add: Let_def)
        from "1.IH"(1) [OF range refl refl ne True] "1.prems" eq show ?thesis by simp
      next
        case False
        with range ne have eq: "sorted_indexOf xs v cmp btm tp = sorted_indexOf xs v cmp (?mid + 1) tp"
          by (subst sorted_indexOf.simps) (simp add: Let_def)
        from "1.IH"(2) [OF range refl refl ne False] "1.prems" eq show ?thesis by simp
      qed
    qed
  qed
qed

lemma sorted_eq_miss:
  assumes "\<forall>x \<in> set xs. cmp x v \<noteq> 0"
  shows "sorted_eq xs v cmp < 0"
proof (rule ccontr)
  define r where "r = sorted_indexOf xs v cmp 0 (int (length xs) - 1)"
  assume "\<not> sorted_eq xs v cmp < 0"
  then have r0: "0 \<le> r"
    by (simp add: sorted_eq_def r_def)
  with sorted_indexOf_found [of xs v cmp 0 "int (length xs) - 1"]
  have "r < int (length xs)" and eq: "cmp (xs ! nat r) v = 0"
    by (simp_all add: r_def)
  with r0 have "nat r < length xs" by simp
  then have "xs ! nat r \<in> set xs" by (rule nth_mem)
  with assms eq show False by blast
qed

text \<open>
  C5. On a chain (every pointer leads further down the chain, so the search comes to an
  end) in which no stored item compares equal to the queried item, once the fuel is
  enough \<open>indexItem\<close> returns the absent result, and on a non-empty chain \<open>indexBlockFor\<close>
  returns a block of the chain.
\<close>

theorem miss_is_absent_with_bounding_block:
  assumes ch: "chain this ix iv bs"
    and miss: "\<forall>b \<in> set bs. \<forall>x \<in> set (data b). sorter ix x item \<noteq> 0"
  shows "\<exists>N. \<forall>fuel\<ge>N.
           (\<exists>calls. indexItem fuel this ix iv item = Some (Inr None, calls)) \<and>
           (bs \<noteq> [] \<longrightarrow>
              (\<exists>j calls. j < length bs \<and>
                 indexBlockFor fuel this ix iv item
                   = Some (Inr (Some (as_returned this ix iv (bs ! j))), calls)))"
proof (cases "bs = []")
  case True
  with ch have "fst (getTipBlock this ix iv (Some reverse_options)) = None"
    by (simp add: chain_def chain_tip_def)
  then have "indexBlockFor fuel this ix iv item
      = Some (Inr None, snd (getTipBlock this ix iv (Some reverse_options)))" for fuel
    by (cases "getTipBlock this ix iv (Some reverse_options)") (simp add: indexBlockFor_def)
  then have "\<exists>calls. indexItem fuel this ix iv item = Some (Inr None, calls)" for fuel
    by (simp add: indexItem_def)
  with True have "\<forall>fuel\<ge>0.
           (\<exists>calls. indexItem fuel this ix iv item = Some (Inr None, calls)) \<and>
           (bs \<noteq> [] \<longrightarrow>
              (\<exists>j calls. j < length bs \<and>
                 indexBlockFor fuel this ix iv item
                   = Some (Inr (Some (as_returned this ix iv (bs ! j))), calls)))"
    by simp
  then show ?thesis by (rule exI)
next
  case False
  from indexBlockFor_chain [OF ch False, of item] obtain N where
    n: "\<forall>fuel\<ge>N. \<exists>j calls. j < length bs \<and>
           indexBlockFor fuel this ix iv item
             = Some (Inr (Some (as_returned this ix iv (bs ! j))), calls)"
    by blast
  have "(\<exists>calls. indexItem fuel this ix iv item = Some (Inr None, calls)) \<and>
           (bs \<noteq> [] \<longrightarrow>
              (\<exists>j calls. j < length bs \<and>
                 indexBlockFor fuel this ix iv item
                   = Some (Inr (Some (as_returned this ix iv (bs ! j))), calls)))"
    if "N \<le> fuel" for fuel
  proof -
    from n that obtain j calls where
      j: "j < length bs"
      and r: "indexBlockFor fuel this ix iv item
             = Some (Inr (Some (as_returned this ix iv (bs ! j))), calls)"
      by blast
    from j have "bs ! j \<in> set bs" by (rule nth_mem)
    with miss have "\<forall>x \<in> set (data (as_returned this ix iv (bs ! j))). sorter ix x item \<noteq> 0"
      by simp
    then have "sorted_eq (data (as_returned this ix iv (bs ! j))) item (sorter ix) < 0"
      by (rule sorted_eq_miss)
    with r have "indexItem fuel this ix iv item = Some (Inr None, calls)"
      by (simp add: indexItem_def)
    with j r show ?thesis by blast
  qed
  then have "\<forall>fuel\<ge>N.
           (\<exists>calls. indexItem fuel this ix iv item = Some (Inr None, calls)) \<and>
           (bs \<noteq> [] \<longrightarrow>
              (\<exists>j calls. j < length bs \<and>
                 indexBlockFor fuel this ix iv item
                   = Some (Inr (Some (as_returned this ix iv (bs ! j))), calls)))"
    by blast
  then show ?thesis by (rule exI)
qed

lemma ex_six_chain: "chain (ex_db ex_six ''b5'') (ex_ix ex_six ''b5'') ''v'' ex_six"
  by (simp add: chain_def chain_tip_def ex_defs ex_six_def)

theorem miss_is_absent_with_bounding_block_witness:
  "chain (ex_db ex_six ''b5'') (ex_ix ex_six ''b5'') ''v'' ex_six \<and>
   ex_six \<noteq> [] \<and>
   (\<exists>N. \<forall>fuel\<ge>N.
      (\<exists>calls. indexItem fuel (ex_db ex_six ''b5'') (ex_ix ex_six ''b5'') ''v'' 25 = Some (Inr None, calls)) \<and>
      (\<exists>j calls. j < length ex_six \<and>
         indexBlockFor fuel (ex_db ex_six ''b5'') (ex_ix ex_six ''b5'') ''v'' 25
           = Some (Inr (Some (as_returned (ex_db ex_six ''b5'') (ex_ix ex_six ''b5'') ''v'' (ex_six ! j))),
                   calls))) \<and>
   map_option fst (indexItem 6 (ex_db ex_six ''b5'') (ex_ix ex_six ''b5'') ''v'' 25) = Some (Inr None) \<and>
   map_option fst (indexBlockFor 6 (ex_db ex_six ''b5'') (ex_ix ex_six ''b5'') ''v'' 25) =
     Some (Inr (Some (ex_indexed ex_six ''b5'' (ex_block ''b3'' [''b2''] [20, 21]))))"
proof -
  have miss: "\<forall>b \<in> set ex_six. \<forall>x \<in> set (data b). sorter (ex_ix ex_six ''b5'') x 25 \<noteq> 0"
    by (simp add: ex_six_def ex_defs)
  have ne: "ex_six \<noteq> []" by (simp add: ex_six_def)
  have run: "map_option fst (indexBlockFor 6 (ex_db ex_six ''b5'') (ex_ix ex_six ''b5'') ''v'' 25) =
     Some (Inr (Some (ex_indexed ex_six ''b5'' (ex_block ''b3'' [''b2''] [20, 21]))))"
    by (simp add: eval_nat_numeral search_defs ex_defs ex_six_def)
  have item: "map_option fst (indexItem 6 (ex_db ex_six ''b5'') (ex_ix ex_six ''b5'') ''v'' 25) = Some (Inr None)"
    by (simp add: eval_nat_numeral search_defs ex_defs ex_six_def sorted_eq_def
        sorted_indexOf.simps [of "[20, 21]"])
  from miss_is_absent_with_bounding_block [OF ex_six_chain miss] ne ex_six_chain run item
  show ?thesis by simp
qed


section \<open>The search on an ordered chain\<close>

lemma blocks_ordered_nth:
  "blocks_ordered cmp bs \<Longrightarrow> a < b \<Longrightarrow> b < length bs \<Longrightarrow>
     x \<in> set (data (bs ! a)) \<Longrightarrow> y \<in> set (data (bs ! b)) \<Longrightarrow> cmp x y \<le> 0"
proof (induction bs arbitrary: a b)
  case Nil
  then show ?case by simp
next
  case (Cons c cs)
  from Cons.prems(2) obtain b' where b: "b = Suc b'" by (cases b) auto
  show ?case
  proof (cases a)
    case 0
    from Cons.prems(3) b have "cs ! b' \<in> set cs" by simp
    with Cons.prems(1,4,5) 0 b show ?thesis by auto
  next
    case (Suc a')
    with Cons.prems b Cons.IH [of a' b'] show ?thesis by simp
  qed
qed

lemma level0_linked_nth:
  "level0_linked bs \<Longrightarrow> Suc k < length bs \<Longrightarrow>
     js_index (nextBlocks (header (bs ! k))) 0 = Some (hdr_id (header (bs ! Suc k))) \<and>
     hdr_id (header (bs ! Suc k)) \<noteq> []"
proof (induction bs arbitrary: k rule: level0_linked.induct)
  case (1 b c bs)
  then show ?case by (cases k) simp_all
qed simp_all

lemma consistent_less_trans:
  assumes "consistent cmp" and "cmp a b \<le> 0" and "cmp b c < 0"
  shows "cmp a c < 0"
proof (rule ccontr)
  assume "\<not> cmp a c < 0"
  with assms(1) have "cmp c a \<le> 0"
    unfolding consistent_def by (metis not_less)
  with assms(1,2) have "cmp c b \<le> 0"
    unfolding consistent_def by blast
  moreover from assms(1,3) have "0 < cmp c b"
    unfolding consistent_def by blast
  ultimately show False by simp
qed

lemma consistent_not_both:
  assumes "consistent cmp" and "cmp a b < 0"
  shows "\<not> cmp b a \<le> 0"
  using assms unfolding consistent_def by (metis not_less)

lemma hd_returned_in:
  "data b \<noteq> [] \<Longrightarrow> hd (data (as_returned this ix iv b)) \<in> set (data b)"
  using hd_in_set [of "data (as_returned this ix iv b)"] by simp

text \<open>
  Where the descent ends on an ordered chain. The queried item \<open>X\<close> is stored in the
  block at position \<open>m\<close>, which is the tip or has a first item smaller than \<open>X\<close>; the
  descent is at a block at or before position \<open>m\<close>. Then it can only return the block
  at position \<open>m\<close>.
\<close>

lemma descend_finds:
  fixes bs :: "'x ArchiveBlock list"
  assumes cons: "consistent (sorter ix)"
    and sc: "search_chain this ix iv bs"
    and m: "m < length bs"
    and X: "X \<in> set (data (bs ! m))"
    and first: "m = 0 \<or> sorter ix (hd (data (as_returned this ix iv (bs ! m)))) X < 0"
  shows "descend fuel this X (as_returned this ix iv (bs ! k)) i asc = Some (r, calls) \<Longrightarrow>
         k \<le> m \<Longrightarrow> 0 \<le> i \<or> nextBlocks (header (bs ! k)) = [] \<Longrightarrow>
         r = Inr (Some (as_returned this ix iv (bs ! m)))"
proof (induction fuel arbitrary: k i asc r calls)
  case 0
  then show ?case by simp
next
  case (Suc fuel)
  let ?R = "as_returned this ix iv"
  let ?F = "\<lambda>p. getBlock (blockDatabase ix) (Some p) (Some reverse_options)"
  from sc have lk: "linked ?F bs" and l0: "level0_linked bs"
    and ne: "\<forall>b \<in> set (tl bs). data b \<noteq> []" and ord: "blocks_ordered (sorter ix) bs"
    by (simp_all add: search_chain_def chain_def)
  from Suc.prems(2) m have k: "k < length bs" by simp
  have later_nonempty: "data (bs ! j) \<noteq> []" if "0 < j" "j < length bs" for j
  proof -
    from that have "bs ! j \<in> set (tl bs)"
      by (cases bs) (auto simp: nth_Cons')
    with ne show ?thesis by blast
  qed
  have m_nonempty: "data (bs ! m) \<noteq> []" using X by auto
  have before_m: "sorter ix (hd (data (?R (bs ! j)))) X < 0" if "0 < j" "j \<le> m" for j
  proof (cases "j = m")
    case True
    with that first show ?thesis by simp
  next
    case False
    with that have jm: "j < m" by simp
    with that m have "hd (data (?R (bs ! j))) \<in> set (data (bs ! j))"
      by (intro hd_returned_in later_nonempty) simp_all
    moreover have "hd (data (?R (bs ! m))) \<in> set (data (bs ! m))"
      using m_nonempty by (rule hd_returned_in)
    ultimately have "sorter ix (hd (data (?R (bs ! j)))) (hd (data (?R (bs ! m)))) \<le> 0"
      using blocks_ordered_nth [OF ord jm m] by blast
    moreover from first jm have "sorter ix (hd (data (?R (bs ! m)))) X < 0" by simp
    ultimately show ?thesis by (rule consistent_less_trans [OF cons])
  qed
  have not_after_m: "j \<le> m"
    if "j < length bs" "data (bs ! j) \<noteq> []" "sorter ix (hd (data (?R (bs ! j)))) X < 0" for j
  proof (rule ccontr)
    assume "\<not> j \<le> m"
    then have mj: "m < j" by simp
    from that(2) have "hd (data (?R (bs ! j))) \<in> set (data (bs ! j))" by (rule hd_returned_in)
    with blocks_ordered_nth [OF ord mj that(1) X]
    have "sorter ix X (hd (data (?R (bs ! j)))) \<le> 0" by blast
    with consistent_not_both [OF cons that(3)] show False by simp
  qed
  from step_as_returned [of this X ix iv "bs ! k" i asc]
  consider
    (exit) c where "whileStep this X (?R (bs ! k)) i asc = (exitLevel (?R (bs ! k)) i, c)"
      "\<not> truthy (js_index (nextBlocks (header (bs ! k))) i) \<or>
       (\<exists>p. js_index (nextBlocks (header (bs ! k))) i = Some p \<and> p \<noteq> [] \<and>
          (?F p = None \<or>
           (\<exists>st. ?F p = Some st \<and>
              (data st = [] \<or> 0 \<le> sorter ix (hd (data (?R st))) X))))"
  | (rise) c where "whileStep this X (?R (bs ! k)) i asc = (Next Rise (?R (bs ! k)) (i + 1) asc, c)"
  | (adv) c p st where "whileStep this X (?R (bs ! k)) i asc = (adopt (?R st) i asc, c)"
      "js_index (nextBlocks (header (bs ! k))) i = Some p" "p \<noteq> []" "?F p = Some st"
      "data st \<noteq> []" "sorter ix (hd (data (?R st))) X < 0"
    by blast
  then show ?case
  proof cases
    case exit
    show ?thesis
    proof (cases "0 \<le> i - 1")
      case True
      with exit(1) have w: "whileStep this X (?R (bs ! k)) i asc = (Next Drop (?R (bs ! k)) (i - 1) False, c)"
        by (simp add: exitLevel_def)
      with Suc.prems(1) obtain calls' where
        "descend fuel this X (?R (bs ! k)) (i - 1) False = Some (r, calls')"
        by (auto split: option.splits)
      from Suc.IH [OF this Suc.prems(2)] True show ?thesis by simp
    next
      case False
      with exit(1) have w: "whileStep this X (?R (bs ! k)) i asc = (Return (Inr (Some (?R (bs ! k)))), c)"
        by (simp add: exitLevel_def)
      with Suc.prems(1) have r: "r = Inr (Some (?R (bs ! k)))" by simp
      have "k = m"
      proof (rule ccontr)
        assume "k \<noteq> m"
        with Suc.prems(2) have km: "Suc k \<le> m" by simp
        with m have sk: "Suc k < length bs" by simp
        from level0_linked_nth [OF l0 sk] have
          p0: "js_index (nextBlocks (header (bs ! k))) 0 = Some (hdr_id (header (bs ! Suc k)))"
          and idne: "hdr_id (header (bs ! Suc k)) \<noteq> []"
          by simp_all
        from p0 have "nextBlocks (header (bs ! k)) \<noteq> []"
          by (auto simp: js_index_def split: if_splits)
        with Suc.prems(3) False have i0: "i = 0" by simp
        from linked_nth [OF lk sk] have f: "?F (hdr_id (header (bs ! Suc k))) = Some (bs ! Suc k)"
          by simp
        from later_nonempty [of "Suc k"] sk have dne: "data (bs ! Suc k) \<noteq> []" by simp
        from exit(2) i0 p0 idne f dne
        have "0 \<le> sorter ix (hd (data (?R (bs ! Suc k)))) X"
          by (auto simp: truthy_def)
        moreover from before_m [of "Suc k"] km
        have "sorter ix (hd (data (?R (bs ! Suc k)))) X < 0" by simp
        ultimately show False by simp
      qed
      with r show ?thesis by simp
    qed
  next
    case rise
    with Suc.prems(1) obtain calls' where
      "descend fuel this X (?R (bs ! k)) (i + 1) asc = Some (r, calls')"
      by (auto split: option.splits)
    from Suc.IH [OF this Suc.prems(2)] Suc.prems(3) show ?thesis by auto
  next
    case adv
    from adv(2) have pin: "p \<in> set (nextBlocks (header (bs ! k)))" by (rule js_index_in_set)
    from adv(2) have i0: "0 \<le> i" by (auto simp: js_index_def split: if_splits)
    from linked_nth [OF lk k] pin adv(3,4) obtain j where
      j: "k < j" "j < length bs" "st = bs ! j"
      by blast
    from not_after_m [of j] j adv(5,6) have jm: "j \<le> m" by simp
    let ?i' = "min i (int (length (nextBlocks (header (?R (bs ! j))))) - 1)"
    from adv(1) j have "whileStep this X (?R (bs ! k)) i asc = (Next Advance (?R (bs ! j)) ?i' asc, c)"
      by (simp add: adopt_def)
    with Suc.prems(1) obtain calls' where
      d: "descend fuel this X (?R (bs ! j)) ?i' asc = Some (r, calls')"
      by (auto split: option.splits)
    from i0 have "0 \<le> ?i' \<or> nextBlocks (header (bs ! j)) = []"
      by (cases "nextBlocks (header (bs ! j))") simp_all
    from Suc.IH [OF d jm this] show ?thesis .
  qed
qed

text \<open>
  C1, as the code has it. The chain is one the search is made for: linked, with the
  level-0 pointer of each block leading to the very next block, every block after the tip
  non-empty, and no item of a block comparing greater than an item of a block further
  from the tip. The comparator is consistent. Then for every item \<open>X\<close> stored in a block
  of the chain that is the tip block, or whose first item as the navigator returns it
  compares smaller than \<open>X\<close>, \<open>indexBlockFor\<close> returns that block once the fuel is enough,
  and the items of the returned block include \<open>X\<close>.
\<close>

theorem stored_item_block_found:
  fixes bs :: "'x ArchiveBlock list"
  assumes cons: "consistent (sorter ix)"
    and sc: "search_chain this ix iv bs"
    and m: "m < length bs"
    and X: "X \<in> set (data (bs ! m))"
    and first: "m = 0 \<or> sorter ix (hd (data (as_returned this ix iv (bs ! m)))) X < 0"
  shows "\<exists>N. \<forall>fuel\<ge>N. \<exists>calls.
           indexBlockFor fuel this ix iv X
             = Some (Inr (Some (as_returned this ix iv (bs ! m))), calls) \<and>
           X \<in> set (data (as_returned this ix iv (bs ! m)))"
proof -
  let ?R = "as_returned this ix iv"
  from m have ne: "bs \<noteq> []" by auto
  then obtain b rest where bs: "bs = b # rest" by (cases bs) auto
  from sc have ch: "chain this ix iv bs" and l0: "level0_linked bs"
    by (simp_all add: search_chain_def)
  from ch bs have tip: "getTipBlock this ix iv (Some reverse_options) =
      (Some (?R (bs ! 0)),
       [GetTip (dbName this) (name ix) iv (Some no_tip_options),
        GetBlock (Some (hdr_id (header b))) (Some reverse_options)])"
    using getTipBlock_chain [of this ix iv b rest] by simp
  let ?top = "int (length (nextBlocks (header (bs ! 0)))) - 1"
  from indexBlockFor_chain [OF ch ne, of X] obtain N where
    n: "\<forall>fuel\<ge>N. \<exists>j calls. j < length bs \<and>
           indexBlockFor fuel this ix iv X = Some (Inr (Some (?R (bs ! j))), calls)"
    by blast
  have "\<exists>calls. indexBlockFor fuel this ix iv X = Some (Inr (Some (?R (bs ! m))), calls) \<and>
           X \<in> set (data (?R (bs ! m)))"
    if "N \<le> fuel" for fuel
  proof -
    from n that obtain j calls where
      res: "indexBlockFor fuel this ix iv X = Some (Inr (Some (?R (bs ! j))), calls)"
      by blast
    have "indexBlockFor fuel this ix iv X = Some (Inr (Some (?R (bs ! m))), calls)"
    proof (cases "0 \<le> ?top")
      case True
      with res tip obtain r' calls' where
        d: "descend fuel this X (?R (bs ! 0)) ?top True = Some (r', calls')"
        and r': "r' = Inr (Some (?R (bs ! j)))"
        by (auto simp: indexBlockFor_def split: option.splits)
      from True have "0 \<le> ?top \<or> nextBlocks (header (bs ! 0)) = []" by simp
      from descend_finds [OF cons sc m X first d _ this] have "r' = Inr (Some (?R (bs ! m)))"
        by simp
      with r' res show ?thesis by simp
    next
      case False
      then have nil: "nextBlocks (header (bs ! 0)) = []" by simp
      have "m = 0"
      proof (rule ccontr)
        assume "m \<noteq> 0"
        with m have "Suc 0 < length bs" by simp
        from level0_linked_nth [OF l0 this] nil show False
          by (simp add: js_index_def)
      qed
      moreover from False tip res have "?R (bs ! j) = ?R (bs ! 0)"
        by (simp add: indexBlockFor_def)
      ultimately show ?thesis using res by simp
    qed
    with X show ?thesis by simp
  qed
  then have "\<forall>fuel\<ge>N. \<exists>calls.
           indexBlockFor fuel this ix iv X = Some (Inr (Some (?R (bs ! m))), calls) \<and>
           X \<in> set (data (?R (bs ! m)))"
    by blast
  then show ?thesis by (rule exI)
qed

lemma ex_six_search_chain: "search_chain (ex_db ex_six ''b5'') (ex_ix ex_six ''b5'') ''v'' ex_six"
  using ex_six_chain by (simp add: search_chain_def ex_six_def ex_defs)

theorem stored_item_block_found_witness:
  "consistent (sorter (ex_ix ex_six ''b5'')) \<and>
   search_chain (ex_db ex_six ''b5'') (ex_ix ex_six ''b5'') ''v'' ex_six \<and>
   41 \<in> set (data (ex_six ! 4)) \<and>
   as_returned (ex_db ex_six ''b5'') (ex_ix ex_six ''b5'') ''v'' (ex_six ! 4) =
     ex_indexed ex_six ''b5'' (ex_block ''b1'' [''b0''] [40, 41]) \<and>
   (\<exists>N. \<forall>fuel\<ge>N. \<exists>calls.
      indexBlockFor fuel (ex_db ex_six ''b5'') (ex_ix ex_six ''b5'') ''v'' 41 =
        Some (Inr (Some (ex_indexed ex_six ''b5'' (ex_block ''b1'' [''b0''] [40, 41]))), calls) \<and>
      41 \<in> set (data (ex_indexed ex_six ''b5'' (ex_block ''b1'' [''b0''] [40, 41])))) \<and>
   map_option fst (indexBlockFor 8 (ex_db ex_six ''b5'') (ex_ix ex_six ''b5'') ''v'' 41) =
     Some (Inr (Some (ex_indexed ex_six ''b5'' (ex_block ''b1'' [''b0''] [40, 41]))))"
proof -
  have c: "consistent (sorter (ex_ix ex_six ''b5''))"
    using consistent_ex_sorter by (simp add: ex_ix_def ex_index_def)
  have m: "4 < length ex_six" by (simp add: ex_six_def)
  have X: "41 \<in> set (data (ex_six ! 4))" by (simp add: ex_six_def ex_block_def)
  have R: "as_returned (ex_db ex_six ''b5'') (ex_ix ex_six ''b5'') ''v'' (ex_six ! 4) =
     ex_indexed ex_six ''b5'' (ex_block ''b1'' [''b0''] [40, 41])"
    by (simp add: as_returned_def ex_six_def ex_defs)
  have first: "4 = (0::nat) \<or>
      sorter (ex_ix ex_six ''b5'')
        (hd (data (as_returned (ex_db ex_six ''b5'') (ex_ix ex_six ''b5'') ''v'' (ex_six ! 4)))) 41 < 0"
    by (simp add: R) (simp add: ex_defs)
  have run: "map_option fst (indexBlockFor 8 (ex_db ex_six ''b5'') (ex_ix ex_six ''b5'') ''v'' 41) =
     Some (Inr (Some (ex_indexed ex_six ''b5'' (ex_block ''b1'' [''b0''] [40, 41]))))"
    by (simp add: eval_nat_numeral search_defs ex_defs ex_six_def)
  from stored_item_block_found [OF c ex_six_search_chain m X first] R
  have "\<exists>N. \<forall>fuel\<ge>N. \<exists>calls.
      indexBlockFor fuel (ex_db ex_six ''b5'') (ex_ix ex_six ''b5'') ''v'' 41 =
        Some (Inr (Some (ex_indexed ex_six ''b5'' (ex_block ''b1'' [''b0''] [40, 41]))), calls) \<and>
      41 \<in> set (data (ex_indexed ex_six ''b5'' (ex_block ''b1'' [''b0''] [40, 41])))"
    by simp
  with c ex_six_search_chain X R run show ?thesis by simp
qed

text \<open>
  C1 as stated fails in both orientations of a two-block chain. On the chain of the
  spec's second scenario (tip \<open>[10, 15]\<close>, older block \<open>[1, 5, 9]\<close>) the item 10 is stored
  in the tip, and the search advances past it and returns the older block. On the chain
  with the tip \<open>[1, 5, 9]\<close> and the older block \<open>[10, 15]\<close> the item 10 is the first item of
  the older block, and the search stops at the tip, although this chain is one the
  search is made for. Neither returned block has an item equal to 10, and \<open>indexItem\<close>
  returns the absent result.
\<close>

theorem stored_item_missed_counterexample:
  "10 \<in> set (data (ex_block ''t'' [''o''] [10, 15])) \<and>
   ex_getBlock ex_two_spec (Some ''t'') (Some reverse_options) = Some (ex_block ''t'' [''o''] [10, 15]) \<and>
   map_option fst (indexBlockFor 2 (ex_db ex_two_spec ''t'') (ex_ix ex_two_spec ''t'') ''v'' 10) =
     Some (Inr (Some (ex_indexed ex_two_spec ''t'' (ex_block ''o'' [] [1, 5, 9])))) \<and>
   map_option fst (indexItem 2 (ex_db ex_two_spec ''t'') (ex_ix ex_two_spec ''t'') ''v'' 10) =
     Some (Inr None) \<and>
   10 \<in> set (data (ex_block ''o'' [] [10, 15])) \<and>
   ex_getBlock ex_two (Some ''o'') (Some reverse_options) = Some (ex_block ''o'' [] [10, 15]) \<and>
   map_option fst (indexBlockFor 2 (ex_db ex_two ''t'') (ex_ix ex_two ''t'') ''v'' 10) =
     Some (Inr (Some (ex_indexed ex_two ''t'' (ex_block ''t'' [''o''] [1, 5, 9])))) \<and>
   map_option fst (indexItem 2 (ex_db ex_two ''t'') (ex_ix ex_two ''t'') ''v'' 10) =
     Some (Inr None) \<and>
   ex_sorter 1 10 \<noteq> 0 \<and> ex_sorter 5 10 \<noteq> 0 \<and> ex_sorter 9 10 \<noteq> 0 \<and>
   search_chain (ex_db ex_two ''t'') (ex_ix ex_two ''t'') ''v'' ex_two"
  by (simp add: eval_nat_numeral search_defs ex_defs ex_two_def ex_two_spec_def sorted_eq_def
      sorted_indexOf.simps [of "[1, 5, 9]"] search_chain_def chain_def chain_tip_def)


end
